theory Spec2Isabelle
  imports Main "HOL-Library.Multiset"
begin

section \<open>Tab windows: the data model of tabWindow.js\<close>

text \<open>
  The source keeps its data in Immutable.js records. A record is modelled as a HOL
  record with one field per key of the source's record, an object that the browser
  hands in (a tab, a window, a bookmark node) as a record of the properties the source
  reads. A property that may be absent is an \<open>option\<close>: \<open>None\<close> is JavaScript's
  \<open>undefined\<close> (or the \<open>null\<close> default of \<open>savedState\<close> and \<open>openState\<close>).
  Numbers are tab ids and positions, hence \<open>int\<close>. Reading a property of \<open>null\<close> or
  \<open>undefined\<close> throws a TypeError; every function that can throw returns
  \<open>error + 'a\<close>, with \<open>Inl TypeError\<close> for the throw.
\<close>

datatype error = TypeError

record SavedTabState =
  bookmarkId :: string
  bookmarkIndex :: int
  savedTabTitle :: string
  savedUrl :: string

record OpenTabState =
  openUrl :: string
  openTabId :: int
  active :: bool
  openTabIndex :: int
  favIconUrl :: "string option"
  openTabTitle :: string
  audible :: bool

record TabItem =
  url :: string
  saved :: bool
  savedState :: "SavedTabState option"
  "open" :: bool
  openState :: "OpenTabState option"

text \<open>
  The window record has a \<open>saved\<close> and an \<open>open\<close> flag of its own; they are named
  \<open>windowSaved\<close> and \<open>windowOpen\<close> here, since a field name is a constant of the theory.
  \<open>savedFolderId\<close> defaults to the number \<open>-1\<close> and is set from a bookmark folder's id,
  a string: it holds either.
\<close>

datatype folderId = NumId int | StrId string

record TabWindow =
  windowSaved :: bool
  savedTitle :: string
  savedFolderId :: folderId
  windowOpen :: bool
  openWindowId :: int
  windowType :: string
  tabItems :: "TabItem list"

text \<open>The browser's objects: a tab, a window (its \<open>tabs\<close> may be absent), a bookmark node.\<close>

record Tab =
  tabId :: int
  tabUrl :: "string option"
  tabTitle :: "string option"
  tabFavIconUrl :: "string option"
  tabActive :: bool
  tabIndex :: int
  tabAudible :: bool

record ChromeWindow =
  chromeWindowId :: int
  chromeWindowType :: string
  chromeTabs :: "Tab list option"

record BookmarkTreeNode =
  nodeId :: string
  nodeIndex :: int
  nodeTitle :: "string option"
  nodeUrl :: "string option"

text \<open>
  The declaration of TabItem documents \<open>savedState\<close> as "SavedTabState iff saved" and
  \<open>openState\<close> as "OpenTabState iff open". This is the invariant of the type; every
  constructor and mutator of the source keeps it.
\<close>

definition wf_TabItem :: "TabItem \<Rightarrow> bool" where
  "wf_TabItem ti =
     ((saved ti \<longleftrightarrow> savedState ti \<noteq> None) \<and> (open ti \<longleftrightarrow> openState ti \<noteq> None))"

definition wf_TabWindow :: "TabWindow \<Rightarrow> bool" where
  "wf_TabWindow tw = list_all wf_TabItem (tabItems tw)"

section \<open>Construction\<close>

text \<open>
  \<open>_.get(x, k, d)\<close> yields \<open>d\<close> when the property is absent. \<open>makeSavedTabState\<close>
  maps the node's \<open>id\<close> and \<open>index\<close> to \<open>bookmarkId\<close> and \<open>bookmarkIndex\<close>.
\<close>

definition makeSavedTabState :: "BookmarkTreeNode \<Rightarrow> SavedTabState" where
  "makeSavedTabState bm =
     (let u = (case nodeUrl bm of None \<Rightarrow> '''' | Some v \<Rightarrow> v) in
      \<lparr>bookmarkId = nodeId bm,
       bookmarkIndex = nodeIndex bm,
       savedTabTitle = (case nodeTitle bm of None \<Rightarrow> u | Some t \<Rightarrow> t),
       savedUrl = u\<rparr>)"

definition makeBookmarkedTabItem :: "BookmarkTreeNode \<Rightarrow> TabItem" where
  "makeBookmarkedTabItem bm =
     (let st = makeSavedTabState bm in
      \<lparr>url = savedUrl st, saved = True, savedState = Some st,
       open = False, openState = None\<rparr>)"

text \<open>
  \<open>new SavedTabState(tabNode)\<close>, the record constructor applied to the node itself
  (as \<open>saveTab\<close> does): an Immutable.js record reads from the object only the keys it
  declares, here \<open>bookmarkId\<close>, \<open>bookmarkIndex\<close>, \<open>title\<close> and \<open>url\<close>. A bookmark node
  has \<open>title\<close> and \<open>url\<close>, and \<open>id\<close> and \<open>index\<close> under other names, so the first two
  keys keep their defaults, the empty string and \<open>0\<close>.
\<close>

definition newSavedTabState :: "BookmarkTreeNode \<Rightarrow> SavedTabState" where
  "newSavedTabState tabNode =
     \<lparr>bookmarkId = '''',
      bookmarkIndex = 0,
      savedTabTitle = (case nodeTitle tabNode of None \<Rightarrow> '''' | Some t \<Rightarrow> t),
      savedUrl = (case nodeUrl tabNode of None \<Rightarrow> '''' | Some u \<Rightarrow> u)\<rparr>"

definition makeOpenTabState :: "Tab \<Rightarrow> OpenTabState" where
  "makeOpenTabState tab =
     (let u = (case tabUrl tab of None \<Rightarrow> '''' | Some v \<Rightarrow> v) in
      \<lparr>openUrl = u,
       openTabId = tabId tab,
       active = tabActive tab,
       openTabIndex = tabIndex tab,
       favIconUrl = tabFavIconUrl tab,
       openTabTitle = (case tabTitle tab of None \<Rightarrow> u | Some t \<Rightarrow> t),
       audible = tabAudible tab\<rparr>)"

definition makeOpenTabItem :: "Tab \<Rightarrow> TabItem" where
  "makeOpenTabItem tab =
     (let os = makeOpenTabState tab in
      \<lparr>url = openUrl os, saved = False, savedState = None,
       open = True, openState = Some os\<rparr>)"

text \<open>\<open>remove(k)\<close> on a record puts the key back to its default.\<close>

definition resetSavedItem :: "TabItem \<Rightarrow> TabItem" where
  "resetSavedItem ti = ti\<lparr>open := False, openState := None\<rparr>"

definition removeOpenWindowState :: "TabWindow \<Rightarrow> TabWindow" where
  "removeOpenWindowState tabWindow =
     (let savedItems = filter saved (tabItems tabWindow);
          resetSavedItems = map resetSavedItem savedItems
      in tabWindow\<lparr>windowOpen := False, openWindowId := - 1, windowType := '''',
           tabItems := resetSavedItems\<rparr>)"

definition removeSavedWindowState :: "TabWindow \<Rightarrow> TabWindow" where
  "removeSavedWindowState tabWindow =
     tabWindow\<lparr>windowSaved := False, savedFolderId := NumId (- 1), savedTitle := ''''\<rparr>"

definition makeChromeTabWindow :: "ChromeWindow \<Rightarrow> TabWindow" where
  "makeChromeTabWindow chromeWindow =
     (let chromeTabs' = (case chromeTabs chromeWindow of None \<Rightarrow> [] | Some ts \<Rightarrow> ts) in
      \<lparr>windowSaved = False, savedTitle = '''', savedFolderId = NumId (- 1),
       windowOpen = True,
       openWindowId = chromeWindowId chromeWindow,
       windowType = chromeWindowType chromeWindow,
       tabItems = map makeOpenTabItem chromeTabs'\<rparr>)"

section \<open>The sequence and map operations of Immutable.js that the source uses\<close>

text \<open>
  \<open>findEntry\<close> walks the sequence from the front and returns the first index and item
  the predicate accepts, \<open>undefined\<close> (\<open>None\<close>) when there is none. The predicates of
  the source read \<open>ti.openState.openTabId\<close>, which throws on an item whose \<open>openState\<close>
  is \<open>null\<close>; the throw leaves \<open>findEntry\<close>.
\<close>

fun findEntryFrom :: "nat \<Rightarrow> ('a \<Rightarrow> error + bool) \<Rightarrow> 'a list \<Rightarrow> error + (nat \<times> 'a) option" where
  "findEntryFrom i p [] = Inr None"
| "findEntryFrom i p (x # xs) =
     (case p x of
        Inl e \<Rightarrow> Inl e
      | Inr b \<Rightarrow> if b then Inr (Some (i, x)) else findEntryFrom (Suc i) p xs)"

definition findEntry :: "('a \<Rightarrow> error + bool) \<Rightarrow> 'a list \<Rightarrow> error + (nat \<times> 'a) option" where
  "findEntry p xs = findEntryFrom 0 p xs"

text \<open>
  \<open>splice(index, removeNum, ...values)\<close> for an index that is not negative: the items
  before \<open>index\<close>, the new values, the items from \<open>index + removeNum\<close> on.
\<close>

definition spliceSeq :: "nat \<Rightarrow> nat \<Rightarrow> 'a list \<Rightarrow> 'a list \<Rightarrow> 'a list" where
  "spliceSeq index removeNum values xs = take index xs @ values @ drop (index + removeNum) xs"

text \<open>
  \<open>groupBy\<close> walks the sequence and appends each item to the group of its key, a new
  key going last: the groups are in the order in which their keys first occur, the items
  of a group in the order of the sequence.
\<close>

fun groupInsert :: "'k \<Rightarrow> 'a \<Rightarrow> ('k \<times> 'a list) list \<Rightarrow> ('k \<times> 'a list) list" where
  "groupInsert k v [] = [(k, [v])]"
| "groupInsert k v ((k', vs) # g) =
     (if k' = k then (k', vs @ [v]) # g else (k', vs) # groupInsert k v g)"

definition groupBy :: "('a \<Rightarrow> 'k) \<Rightarrow> 'a list \<Rightarrow> ('k \<times> 'a list) list" where
  "groupBy grouper xs = foldl (\<lambda>g x. groupInsert (grouper x) x g) [] xs"

text \<open>\<open>m.get(k, notSet)\<close> on a keyed collection.\<close>

definition getOr :: "('k \<times> 'v) list \<Rightarrow> 'k \<Rightarrow> 'v \<Rightarrow> 'v" where
  "getOr m k notSet = (case map_of m k of None \<Rightarrow> notSet | Some v \<Rightarrow> v)"

text \<open>
  \<open>Immutable.Map(...)\<close> turns the ordered result of \<open>groupBy\<close> into a hash map. A hash
  map of at most eight entries lists them in the order of insertion, a larger one in the
  order of its hash trie. The model keeps a map as the list of its entries (keys
  distinct) and takes the order of iteration as a parameter: \<open>h\<close> ranks the keys, the
  entries are visited by ascending rank, entries of equal rank in the order of insertion.
  A constant \<open>h\<close> is the order of insertion; since the keys of a map are distinct, every
  order of iteration is that of some \<open>h\<close>. All results below hold for every \<open>h\<close>.
\<close>

definition entries :: "('k \<Rightarrow> nat) \<Rightarrow> ('k \<times> 'v) list \<Rightarrow> ('k \<times> 'v) list" where
  "entries h m = sort_key (\<lambda>kv. h (fst kv)) m"

definition toIndexedSeq :: "('k \<Rightarrow> nat) \<Rightarrow> ('k \<times> 'v) list \<Rightarrow> 'v list" where
  "toIndexedSeq h m = map snd (entries h m)"

text \<open>
  \<open>m.mergeWith(merger, other)\<close> visits the entries of \<open>other\<close>: a key that \<open>m\<close> has
  gets \<open>merger(existing, value)\<close>, a key that it lacks is added with the value of
  \<open>other\<close>. The merger of the source can throw, so the update is in the error type.
\<close>

fun mapUpdate :: "'k \<Rightarrow> ('v \<Rightarrow> error + 'v) \<Rightarrow> 'v \<Rightarrow> ('k \<times> 'v) list \<Rightarrow> error + ('k \<times> 'v) list" where
  "mapUpdate k f v [] = Inr [(k, v)]"
| "mapUpdate k f v ((k', v') # m) =
     (if k' = k then (case f v' of Inl e \<Rightarrow> Inl e | Inr w \<Rightarrow> Inr ((k', w) # m))
      else (case mapUpdate k f v m of Inl e \<Rightarrow> Inl e | Inr m' \<Rightarrow> Inr ((k', v') # m')))"

fun mergeEntries :: "('v \<Rightarrow> 'v \<Rightarrow> error + 'v) \<Rightarrow> ('k \<times> 'v) list \<Rightarrow> ('k \<times> 'v) list \<Rightarrow> error + ('k \<times> 'v) list" where
  "mergeEntries merger m [] = Inr m"
| "mergeEntries merger m ((k, v) # rest) =
     (case mapUpdate k (\<lambda>existing. merger existing v) v m of
        Inl e \<Rightarrow> Inl e
      | Inr m' \<Rightarrow> mergeEntries merger m' rest)"

definition mergeWith :: "('k \<Rightarrow> nat) \<Rightarrow> ('v \<Rightarrow> 'v \<Rightarrow> error + 'v) \<Rightarrow> ('k \<times> 'v) list \<Rightarrow> ('k \<times> 'v) list \<Rightarrow> error + ('k \<times> 'v) list" where
  "mergeWith h merger m other = mergeEntries merger m (entries h other)"

text \<open>
  \<open>sortBy(mapper)\<close> first applies the mapper to every item (a throw of the mapper leaves
  \<open>sortBy\<close>), then sorts the items by the mapped number, items of equal number staying
  in their order.
\<close>

fun mapSeq :: "('a \<Rightarrow> error + 'b) \<Rightarrow> 'a list \<Rightarrow> error + 'b list" where
  "mapSeq f [] = Inr []"
| "mapSeq f (x # xs) =
     (case f x of
        Inl e \<Rightarrow> Inl e
      | Inr y \<Rightarrow> (case mapSeq f xs of Inl e \<Rightarrow> Inl e | Inr ys \<Rightarrow> Inr (y # ys)))"

definition sortBy :: "('a \<Rightarrow> error + int) \<Rightarrow> 'a list \<Rightarrow> error + 'a list" where
  "sortBy mapper xs =
     (case mapSeq mapper xs of
        Inl e \<Rightarrow> Inl e
      | Inr ks \<Rightarrow> Inr (map snd (sort_key fst (zip ks xs))))"

section \<open>The reconciliation engine\<close>

text \<open>
  The live tabs come in as \<open>openTabs\<close>, an array or, when the caller hands on the
  \<open>tabs\<close> of a window that has none, \<open>undefined\<close>: the first statement of
  \<open>getOpenTabInfo\<close>, \<open>openTabs.map(makeOpenTabItem)\<close>, throws then.
\<close>

text \<open>
  \<open>mergeTabItems\<close> is the merger local to \<open>getOpenTabInfo\<close>. Its \<open>savedItem\<close> is
  \<open>mergeSavedItems.get(0)\<close>, \<open>undefined\<close> for an empty group; \<open>savedItem.savedState\<close> is
  read once per open item, and throws then.
\<close>

definition mergeTabItems :: "TabItem list \<Rightarrow> TabItem list \<Rightarrow> error + TabItem list" where
  "mergeTabItems openItems mergeSavedItems =
     (case mergeSavedItems of
        [] \<Rightarrow> if openItems = [] then Inr [] else Inl TypeError
      | savedItem # _ \<Rightarrow>
          Inr (map (\<lambda>openItem. openItem\<lparr>saved := True, savedState := savedState savedItem\<rparr>)
                 openItems))"

definition getOpenTabInfo :: "(string \<Rightarrow> nat) \<Rightarrow> TabItem list \<Rightarrow> Tab list option \<Rightarrow> error + (bool \<times> TabItem list) list" where
  "getOpenTabInfo h tabItems' openTabs =
     (case openTabs of
        None \<Rightarrow> Inl TypeError
      | Some tabs \<Rightarrow>
          (let chromeOpenTabItems = map makeOpenTabItem tabs;
               openUrlMap = groupBy url chromeOpenTabItems;
               savedItems = filter saved tabItems';
               baseSavedItems = map resetSavedItem savedItems;
               savedUrlMap = groupBy url baseSavedItems
           in case mergeWith h mergeTabItems openUrlMap savedUrlMap of
                Inl e \<Rightarrow> Inl e
              | Inr mergedMap \<Rightarrow> Inr (groupBy open (concat (toIndexedSeq h mergedMap)))))"

definition openTabIndexOf :: "TabItem \<Rightarrow> error + int" where
  "openTabIndexOf ti =
     (case openState ti of None \<Rightarrow> Inl TypeError | Some os \<Rightarrow> Inr (openTabIndex os))"

definition bookmarkIndexOf :: "TabItem \<Rightarrow> error + int" where
  "bookmarkIndexOf ti =
     (case savedState ti of None \<Rightarrow> Inl TypeError | Some st \<Rightarrow> Inr (bookmarkIndex st))"

definition mergeOpenTabs :: "(string \<Rightarrow> nat) \<Rightarrow> TabItem list \<Rightarrow> Tab list option \<Rightarrow> error + TabItem list" where
  "mergeOpenTabs h tabItems' openTabs =
     (case getOpenTabInfo h tabItems' openTabs of
        Inl e \<Rightarrow> Inl e
      | Inr tabInfo \<Rightarrow>
          (case sortBy openTabIndexOf (getOr tabInfo True []) of
             Inl e \<Rightarrow> Inl e
           | Inr openTabItems \<Rightarrow>
               (case sortBy bookmarkIndexOf (getOr tabInfo False []) of
                  Inl e \<Rightarrow> Inl e
                | Inr closedTabItems \<Rightarrow> Inr (openTabItems @ closedTabItems))))"

text \<open>
  \<open>updateWindow\<close> passes \<open>chromeWindow.tabs\<close> on as it is, also when the window has
  no \<open>tabs\<close>.
\<close>

definition updateWindow :: "(string \<Rightarrow> nat) \<Rightarrow> TabWindow \<Rightarrow> ChromeWindow \<Rightarrow> error + TabWindow" where
  "updateWindow h tabWindow chromeWindow =
     (case mergeOpenTabs h (tabItems tabWindow) (chromeTabs chromeWindow) of
        Inl e \<Rightarrow> Inl e
      | Inr mergedTabItems \<Rightarrow>
          Inr (tabWindow\<lparr>tabItems := mergedTabItems,
                 windowType := chromeWindowType chromeWindow,
                 windowOpen := True,
                 openWindowId := chromeWindowId chromeWindow\<rparr>))"

section \<open>The mutators\<close>

text \<open>The predicate \<open>ti.open && ti.openState.openTabId === tabId\<close>.\<close>

definition isOpenTab :: "int \<Rightarrow> TabItem \<Rightarrow> error + bool" where
  "isOpenTab tabId' ti =
     (if open ti then
        (case openState ti of None \<Rightarrow> Inl TypeError | Some os \<Rightarrow> Inr (openTabId os = tabId'))
      else Inr False)"

text \<open>The predicate \<open>ti.open && ti.openState.active\<close>.\<close>

definition isActiveTab :: "TabItem \<Rightarrow> error + bool" where
  "isActiveTab ti =
     (if open ti then
        (case openState ti of None \<Rightarrow> Inl TypeError | Some os \<Rightarrow> Inr (active os))
      else Inr False)"

definition closeTab :: "TabWindow \<Rightarrow> int \<Rightarrow> error + TabWindow" where
  "closeTab tabWindow tabId' =
     (case findEntry (isOpenTab tabId') (tabItems tabWindow) of
        Inl e \<Rightarrow> Inl e
      | Inr None \<Rightarrow> Inr tabWindow
      | Inr (Some (index, tabItem)) \<Rightarrow>
          (let updItems =
             (if saved tabItem
              then spliceSeq index 1 [resetSavedItem tabItem] (tabItems tabWindow)
              else spliceSeq index 1 [] (tabItems tabWindow))
           in Inr (tabWindow\<lparr>tabItems := updItems\<rparr>)))"

text \<open>
  \<open>saveTab\<close> destructures the result of \<open>findEntry\<close> without a test: when no item is
  found, \<open>var [index] = undefined\<close> throws. Its predicate reads
  \<open>tabItem.openState.openTabId\<close> for every open item it visits.
\<close>

definition saveTab :: "TabWindow \<Rightarrow> TabItem \<Rightarrow> BookmarkTreeNode \<Rightarrow> error + TabWindow" where
  "saveTab tabWindow tabItem tabNode =
     (case findEntry
             (\<lambda>ti. if open ti then
                      (case openState ti of
                         None \<Rightarrow> Inl TypeError
                       | Some os \<Rightarrow>
                           (case openState tabItem of
                              None \<Rightarrow> Inl TypeError
                            | Some os' \<Rightarrow> Inr (openTabId os = openTabId os')))
                    else Inr False)
             (tabItems tabWindow) of
        Inl e \<Rightarrow> Inl e
      | Inr None \<Rightarrow> Inl TypeError
      | Inr (Some (index, _)) \<Rightarrow>
          (let savedState' = newSavedTabState tabNode;
               updTabItem = tabItem\<lparr>saved := True, savedState := Some savedState'\<rparr>;
               updItems = spliceSeq index 1 [updTabItem] (tabItems tabWindow)
           in Inr (tabWindow\<lparr>tabItems := updItems\<rparr>)))"

text \<open>
  \<open>setActiveTab\<close> tests \<open>tabItem.active\<close>. A TabItem declares no key \<open>active\<close> (the flag
  is a key of its \<open>openState\<close>), so the read yields \<open>undefined\<close>, which counts as false:
  the branch "tab was already active" is never taken.
\<close>

definition tabItemActive :: "TabItem \<Rightarrow> bool" where
  "tabItemActive tabItem = False"

definition setActiveTab :: "TabWindow \<Rightarrow> int \<Rightarrow> error + TabWindow" where
  "setActiveTab tabWindow tabId' =
     (case findEntry (isOpenTab tabId') (tabItems tabWindow) of
        Inl e \<Rightarrow> Inl e
      | Inr None \<Rightarrow> Inr tabWindow
      | Inr (Some (index, tabItem)) \<Rightarrow>
          if tabItemActive tabItem then Inr tabWindow
          else
            (case findEntry isActiveTab (tabItems tabWindow) of
               Inl e \<Rightarrow> Inl e
             | Inr prevPos \<Rightarrow>
                 (case (case prevPos of
                          None \<Rightarrow> Inr (tabItems tabWindow)
                        | Some (prevIndex, prevActiveTab) \<Rightarrow>
                            (case openState prevActiveTab of
                               None \<Rightarrow> Inl TypeError
                             | Some os \<Rightarrow>
                                 Inr (spliceSeq prevIndex 1
                                        [prevActiveTab\<lparr>openState := Some (os\<lparr>active := False\<rparr>)\<rparr>]
                                        (tabItems tabWindow)))) of
                    Inl e \<Rightarrow> Inl e
                  | Inr nonActiveItems \<Rightarrow>
                      (case openState tabItem of
                         None \<Rightarrow> Inl TypeError
                       | Some os \<Rightarrow>
                           (let updActiveTab = tabItem\<lparr>openState := Some (os\<lparr>active := True\<rparr>)\<rparr>;
                                updItems = spliceSeq index 1 [updActiveTab] nonActiveItems
                            in Inr (tabWindow\<lparr>tabItems := updItems\<rparr>))))))"

text \<open>A sequence of \<open>setActiveTab\<close> events, each applied to the window the last one returned.\<close>

fun setActiveTabs :: "TabWindow \<Rightarrow> int list \<Rightarrow> error + TabWindow" where
  "setActiveTabs tabWindow [] = Inr tabWindow"
| "setActiveTabs tabWindow (t # ts) =
     (case setActiveTab tabWindow t of
        Inl e \<Rightarrow> Inl e
      | Inr tabWindow' \<Rightarrow> setActiveTabs tabWindow' ts)"

section \<open>Notions used in the statements\<close>

text \<open>An open item whose \<open>openState.openTabId\<close> is the given id.\<close>

definition hasOpenTabId :: "int \<Rightarrow> TabItem \<Rightarrow> bool" where
  "hasOpenTabId t ti = (open ti \<and> map_option openTabId (openState ti) = Some t)"

text \<open>An item with \<open>open = true\<close> and \<open>openState.active = true\<close>, and how many a window has.\<close>

definition isActiveItem :: "TabItem \<Rightarrow> bool" where
  "isActiveItem ti = (open ti \<and> map_option active (openState ti) = Some True)"

definition activeCount :: "TabWindow \<Rightarrow> nat" where
  "activeCount tw = length (filter isActiveItem (tabItems tw))"

text \<open>The first saved item of a sequence with a given URL, if there is one.\<close>

definition firstSaved :: "TabItem list \<Rightarrow> string \<Rightarrow> TabItem option" where
  "firstSaved tabItems' u = find (\<lambda>ti. saved ti \<and> url ti = u) tabItems'"

text \<open>
  A live item as the engine returns it: with the saved facet of the first saved item at
  its URL when there is one, unchanged otherwise.
\<close>

definition attachSaved :: "TabItem list \<Rightarrow> TabItem \<Rightarrow> TabItem" where
  "attachSaved tabItems' openItem =
     (case firstSaved tabItems' (url openItem) of
        None \<Rightarrow> openItem
      | Some s \<Rightarrow> openItem\<lparr>saved := True, savedState := savedState s\<rparr>)"

text \<open>What \<open>mergeTabItems\<close> returns for a group of saved items that is not empty.\<close>

definition mergedItems :: "TabItem list \<Rightarrow> TabItem list \<Rightarrow> TabItem list" where
  "mergedItems openItems mergeSavedItems =
     map (\<lambda>openItem. openItem\<lparr>saved := True, savedState := savedState (hd mergeSavedItems)\<rparr>)
       openItems"

text \<open>
  A sequence is ascending by a key when the key can be read from every item and the keys,
  in the order of the sequence, are sorted.
\<close>

definition ascendingBy :: "('a \<Rightarrow> error + int) \<Rightarrow> 'a list \<Rightarrow> bool" where
  "ascendingBy key xs = (case mapSeq key xs of Inl e \<Rightarrow> False | Inr ks \<Rightarrow> sorted ks)"

section \<open>Concrete inputs\<close>

text \<open>
  Two live tabs, three bookmark nodes, a window with the two tabs and the same window
  delivered without its \<open>tabs\<close>.
\<close>

definition exTabA :: Tab where
  "exTabA = \<lparr>tabId = 7, tabUrl = Some ''https://a.com'', tabTitle = Some ''A'',
     tabFavIconUrl = None, tabActive = True, tabIndex = 0, tabAudible = False\<rparr>"

definition exTabB :: Tab where
  "exTabB = \<lparr>tabId = 8, tabUrl = Some ''https://b.com'', tabTitle = Some ''B'',
     tabFavIconUrl = None, tabActive = False, tabIndex = 1, tabAudible = False\<rparr>"

definition exNodeA :: BookmarkTreeNode where
  "exNodeA = \<lparr>nodeId = ''42'', nodeIndex = 3, nodeTitle = Some ''A'',
     nodeUrl = Some ''https://a.com''\<rparr>"

definition exNodeB :: BookmarkTreeNode where
  "exNodeB = \<lparr>nodeId = ''44'', nodeIndex = 5, nodeTitle = Some ''B'',
     nodeUrl = Some ''https://b.com''\<rparr>"

definition exNodeC :: BookmarkTreeNode where
  "exNodeC = \<lparr>nodeId = ''43'', nodeIndex = 4, nodeTitle = Some ''C'',
     nodeUrl = Some ''https://c.com''\<rparr>"

definition exChromeWindow :: ChromeWindow where
  "exChromeWindow =
     \<lparr>chromeWindowId = 1, chromeWindowType = ''normal'', chromeTabs = Some [exTabA, exTabB]\<rparr>"

definition exBareWindow :: ChromeWindow where
  "exBareWindow = \<lparr>chromeWindowId = 1, chromeWindowType = ''normal'', chromeTabs = None\<rparr>"

definition exWindow :: TabWindow where
  "exWindow = makeChromeTabWindow exChromeWindow"

text \<open>
  A prior sequence of two saved, closed items (c.com before a.com), the sequence expected
  from reconciling it with the tabs b.com and a.com, and a window holding that sequence.
\<close>

definition exPrior :: "TabItem list" where
  "exPrior = [makeBookmarkedTabItem exNodeC, makeBookmarkedTabItem exNodeA]"

definition exMerged :: "TabItem list" where
  "exMerged =
     [(makeOpenTabItem exTabA)\<lparr>saved := True, savedState := Some (makeSavedTabState exNodeA)\<rparr>,
      makeOpenTabItem exTabB,
      makeBookmarkedTabItem exNodeC]"

definition exMergedWindow :: TabWindow where
  "exMergedWindow = exWindow\<lparr>windowSaved := True, savedTitle := ''Work'',
     savedFolderId := StrId ''40'', tabItems := exMerged\<rparr>"

section \<open>Lemmas about the sequence operations\<close>

subsection \<open>findEntry and splice\<close>

lemma findEntryFrom_None_iff:
  "findEntryFrom i p xs = Inr None \<longleftrightarrow> (\<forall>x\<in>set xs. p x = Inr False)"
  by (induction xs arbitrary: i) (auto split: sum.splits)

lemma findEntryFrom_Some:
  "findEntryFrom i p xs = Inr (Some (j, y)) \<Longrightarrow>
     i \<le> j \<and> j - i < length xs \<and> y = xs ! (j - i) \<and> p y = Inr True \<and>
     (\<forall>k < j - i. p (xs ! k) = Inr False)"
proof (induction xs arbitrary: i)
  case Nil
  then show ?case by simp
next
  case (Cons x xs)
  show ?case
  proof (cases "p x")
    case (Inl e)
    with Cons.prems show ?thesis by simp
  next
    case (Inr b)
    show ?thesis
    proof (cases b)
      case True
      with Inr Cons.prems show ?thesis by simp
    next
      case False
      with Inr Cons.prems have rec: "findEntryFrom (Suc i) p xs = Inr (Some (j, y))" by simp
      from Cons.IH [OF rec] have ih: "Suc i \<le> j" "j - Suc i < length xs" "y = xs ! (j - Suc i)"
        "p y = Inr True" "\<forall>k < j - Suc i. p (xs ! k) = Inr False" by auto
      from ih(1) have eq: "j - i = Suc (j - Suc i)" by simp
      have "\<forall>k < j - i. p ((x # xs) ! k) = Inr False"
      proof (intro allI impI)
        fix k assume "k < j - i"
        then show "p ((x # xs) ! k) = Inr False"
          using ih(5) Inr False eq by (cases k) auto
      qed
      with ih eq show ?thesis by simp
    qed
  qed
qed

lemma findEntryFrom_first:
  "n < length xs \<Longrightarrow> p (xs ! n) = Inr True \<Longrightarrow> (\<forall>k<n. p (xs ! k) = Inr False) \<Longrightarrow>
     findEntryFrom i p xs = Inr (Some (i + n, xs ! n))"
proof (induction xs arbitrary: i n)
  case Nil
  then show ?case by simp
next
  case (Cons x xs)
  show ?case
  proof (cases n)
    case 0
    with Cons.prems show ?thesis by simp
  next
    case (Suc m)
    from Cons.prems(3) Suc have hd: "p x = Inr False" by auto
    from Cons.prems Suc have "m < length xs" "p (xs ! m) = Inr True" "\<forall>k<m. p (xs ! k) = Inr False"
      by auto
    from Cons.IH [OF this] hd Suc show ?thesis by simp
  qed
qed

lemma findEntryFrom_total:
  "(\<forall>x\<in>set xs. \<exists>b. p x = Inr b) \<Longrightarrow> \<exists>r. findEntryFrom i p xs = Inr r"
  by (induction xs arbitrary: i) (auto split: sum.splits)

lemma findEntry_SomeD:
  "findEntry p xs = Inr (Some (j, y)) \<Longrightarrow> j < length xs \<and> y = xs ! j \<and> p y = Inr True"
  using findEntryFrom_Some [of 0 p xs j y] by (auto simp: findEntry_def)

lemma findEntry_NoneD: "findEntry p xs = Inr None \<Longrightarrow> \<forall>x\<in>set xs. p x = Inr False"
  by (simp add: findEntry_def findEntryFrom_None_iff)

lemma findEntry_wf_total:
  assumes "\<forall>x\<in>set xs. \<exists>b. p x = Inr b"
  shows "\<exists>r. findEntry p xs = Inr r"
  using findEntryFrom_total [OF assms] by (simp add: findEntry_def)

lemma spliceSeq_replace: "i < length xs \<Longrightarrow> spliceSeq i (Suc 0) [y] xs = xs[i := y]"
  by (simp add: spliceSeq_def upd_conv_take_nth_drop)

lemma spliceSeq_remove: "spliceSeq i (Suc 0) [] xs = take i xs @ drop (Suc i) xs"
  by (simp add: spliceSeq_def)

lemma filter_update_count:
  "i < length xs \<Longrightarrow>
     length (filter P (xs[i := y])) + (if P (xs ! i) then 1 else 0) =
     length (filter P xs) + (if P y then 1 else 0)"
proof (induction xs arbitrary: i)
  case Nil
  then show ?case by simp
next
  case (Cons x xs)
  then show ?case by (cases i) auto
qed

lemma count_update_zero:
  assumes "i < length xs" and "length (filter P xs) = 0"
  shows "length (filter P (xs[i := y])) \<le> 1"
  using filter_update_count [OF assms(1), of P y] assms(2) by (simp split: if_splits)

lemma count_clear_one:
  assumes "i < length xs" and "P (xs ! i)" and "\<not> P y" and "length (filter P xs) \<le> 1"
  shows "length (filter P (xs[i := y])) = 0"
proof -
  from filter_update_count [OF assms(1), of P y] assms(2,3)
  have "length (filter P (xs[i := y])) + 1 = length (filter P xs)" by simp
  with assms(4) show ?thesis by arith
qed

subsection \<open>groupBy\<close>

lemma map_of_groupInsert:
  "map_of (groupInsert k v g) =
     (map_of g)(k \<mapsto> (case map_of g k of None \<Rightarrow> [v] | Some vs \<Rightarrow> vs @ [v]))"
  by (induction g) (auto simp: fun_eq_iff)

lemma keys_groupInsert:
  "map fst (groupInsert k v g) = (if k \<in> set (map fst g) then map fst g else map fst g @ [k])"
proof (induction g)
  case Nil
  then show ?case by simp
next
  case (Cons e g)
  obtain k' vs where e: "e = (k', vs)" by (cases e)
  show ?case
  proof (cases "k' = k")
    case True
    with e show ?thesis by simp
  next
    case False
    with e Cons.IH show ?thesis by (cases "k \<in> set (map fst g)") simp_all
  qed
qed

lemma distinct_groupInsert:
  "distinct (map fst g) \<Longrightarrow> distinct (map fst (groupInsert k v g))"
  by (simp add: keys_groupInsert)

lemma mset_groupInsert:
  "mset (concat (map snd (groupInsert k v g))) = mset (concat (map snd g)) + {#v#}"
  by (induction g) auto

lemma groupBy_foldl_map_of:
  "map_of (foldl (\<lambda>g x. groupInsert (f x) x g) g0 xs) k =
     (case map_of g0 k of
        None \<Rightarrow> if k \<in> f ` set xs then Some (filter (\<lambda>x. f x = k) xs) else None
      | Some vs \<Rightarrow> Some (vs @ filter (\<lambda>x. f x = k) xs))"
proof (induction xs arbitrary: g0)
  case Nil
  then show ?case by (simp split: option.splits)
next
  case (Cons x xs)
  show ?case
    by (simp add: Cons.IH map_of_groupInsert split: option.splits)
qed

lemma groupBy_foldl_distinct:
  "distinct (map fst g0) \<Longrightarrow> distinct (map fst (foldl (\<lambda>g x. groupInsert (f x) x g) g0 xs))"
  by (induction xs arbitrary: g0) (simp_all add: distinct_groupInsert)

lemma groupBy_foldl_mset:
  "mset (concat (map snd (foldl (\<lambda>g x. groupInsert (f x) x g) g0 xs))) =
     mset (concat (map snd g0)) + mset xs"
  by (induction xs arbitrary: g0) (simp_all add: mset_groupInsert)

lemma map_of_groupBy:
  "map_of (groupBy f xs) k =
     (if k \<in> f ` set xs then Some (filter (\<lambda>x. f x = k) xs) else None)"
  by (simp add: groupBy_def groupBy_foldl_map_of)

lemma distinct_groupBy: "distinct (map fst (groupBy f xs))"
  by (simp add: groupBy_def groupBy_foldl_distinct)

lemma mset_groupBy: "mset (concat (map snd (groupBy f xs))) = mset xs"
  by (simp add: groupBy_def groupBy_foldl_mset)

lemma getOr_groupBy: "getOr (groupBy f xs) k [] = filter (\<lambda>x. f x = k) xs"
proof (cases "k \<in> f ` set xs")
  case True
  then show ?thesis by (simp add: getOr_def map_of_groupBy)
next
  case False
  then have "filter (\<lambda>x. f x = k) xs = []" by (auto simp: filter_empty_conv)
  with False show ?thesis by (simp add: getOr_def map_of_groupBy)
qed

lemma groupBy_entry:
  "(k, vs) \<in> set (groupBy f xs) \<longleftrightarrow> k \<in> f ` set xs \<and> vs = filter (\<lambda>x. f x = k) xs"
  using map_of_eq_Some_iff [OF distinct_groupBy, of f xs k vs]
  by (auto simp: map_of_groupBy split: if_splits)

lemma groupBy_nonempty: "(k, vs) \<in> set (groupBy f xs) \<Longrightarrow> vs \<noteq> []"
  by (auto simp: groupBy_entry filter_empty_conv)

subsection \<open>The order of iteration\<close>

lemma set_entries: "set (entries h m) = set m"
  by (simp add: entries_def)

lemma mset_entries: "mset (entries h m) = mset m"
  by (simp add: entries_def)

lemma distinct_entries: "distinct (map fst (entries h m)) = distinct (map fst m)"
proof -
  have "mset (map fst (entries h m)) = mset (map fst m)"
    by (simp add: mset_entries)
  then show ?thesis by (rule mset_eq_imp_distinct_iff)
qed

lemma map_of_entries: "distinct (map fst m) \<Longrightarrow> map_of (entries h m) = map_of m"
  by (rule map_of_inject_set [THEN iffD2]) (simp_all add: distinct_entries set_entries)

lemma mset_concat_map:
  "mset (concat (map f xs)) = \<Sum>\<^sub># (image_mset (\<lambda>x. mset (f x)) (mset xs))"
  by (induction xs) simp_all

lemma mset_toIndexedSeq: "mset (concat (toIndexedSeq h m)) = mset (concat (map snd m))"
  by (simp add: toIndexedSeq_def mset_concat_map mset_entries)

lemma set_toIndexedSeq:
  "x \<in> set (concat (toIndexedSeq h m)) \<longleftrightarrow> (\<exists>k vs. (k, vs) \<in> set m \<and> x \<in> set vs)"
  by (force simp: toIndexedSeq_def set_entries)

subsection \<open>mergeWith\<close>

lemma mapUpdate_Inr:
  assumes "\<And>v'. map_of m k = Some v' \<Longrightarrow> f v' = Inr (g v')"
  shows "\<exists>m'. mapUpdate k f v m = Inr m' \<and>
           map_of m' = (map_of m)(k \<mapsto> (case map_of m k of None \<Rightarrow> v | Some v' \<Rightarrow> g v')) \<and>
           map fst m' = (if k \<in> set (map fst m) then map fst m else map fst m @ [k])"
  using assms
proof (induction m)
  case Nil
  then show ?case by (simp add: fun_eq_iff)
next
  case (Cons e m)
  obtain k' v' where e: "e = (k', v')" by (cases e)
  show ?case
  proof (cases "k' = k")
    case True
    with e Cons.prems [of v'] show ?thesis by (auto simp: fun_eq_iff)
  next
    case False
    with e Cons.prems have "\<And>w. map_of m k = Some w \<Longrightarrow> f w = Inr (g w)" by simp
    from Cons.IH [OF this] obtain m' where m': "mapUpdate k f v m = Inr m'"
      "map_of m' = (map_of m)(k \<mapsto> (case map_of m k of None \<Rightarrow> v | Some v' \<Rightarrow> g v'))"
      "map fst m' = (if k \<in> set (map fst m) then map fst m else map fst m @ [k])" by blast
    with e False show ?thesis by (auto simp: fun_eq_iff)
  qed
qed

lemma mergeEntries_Inr:
  assumes "distinct (map fst other)"
    and "\<And>v v'. v \<in> snd ` set other \<Longrightarrow> merger v' v = Inr (g v' v)"
    and "distinct (map fst m)"
  shows "\<exists>m'. mergeEntries merger m other = Inr m' \<and> distinct (map fst m') \<and>
           (\<forall>x. map_of m' x =
              (case map_of other x of
                 None \<Rightarrow> map_of m x
               | Some v \<Rightarrow> Some (case map_of m x of None \<Rightarrow> v | Some v' \<Rightarrow> g v' v)))"
  using assms
proof (induction other arbitrary: m)
  case Nil
  then show ?case by simp
next
  case (Cons e other)
  obtain k v where e: "e = (k, v)" by (cases e)
  from Cons.prems(2) [of v] e have "\<And>v'. map_of m k = Some v' \<Longrightarrow> merger v' v = Inr (g v' v)"
    by simp
  from mapUpdate_Inr [of m k "\<lambda>existing. merger existing v" "\<lambda>v'. g v' v" v, OF this]
  obtain m1 where m1: "mapUpdate k (\<lambda>existing. merger existing v) v m = Inr m1"
    "map_of m1 = (map_of m)(k \<mapsto> (case map_of m k of None \<Rightarrow> v | Some v' \<Rightarrow> g v' v))"
    "map fst m1 = (if k \<in> set (map fst m) then map fst m else map fst m @ [k])" by blast
  from m1(3) Cons.prems(3) have d1: "distinct (map fst m1)" by (simp split: if_splits)
  from Cons.prems(1) e have d: "distinct (map fst other)" and knot: "k \<notin> fst ` set other" by auto
  from Cons.prems(2) have "\<And>v v'. v \<in> snd ` set other \<Longrightarrow> merger v' v = Inr (g v' v)" by simp
  from Cons.IH [OF d this d1] obtain m' where m': "mergeEntries merger m1 other = Inr m'"
    "distinct (map fst m')"
    "\<forall>x. map_of m' x =
       (case map_of other x of
          None \<Rightarrow> map_of m1 x
        | Some v \<Rightarrow> Some (case map_of m1 x of None \<Rightarrow> v | Some v' \<Rightarrow> g v' v))" by blast
  from knot have none: "map_of other k = None" by (simp add: map_of_eq_None_iff)
  have "\<forall>x. map_of m' x =
       (case map_of (e # other) x of
          None \<Rightarrow> map_of m x
        | Some v \<Rightarrow> Some (case map_of m x of None \<Rightarrow> v | Some v' \<Rightarrow> g v' v))"
    using m'(3) m1(2) none e by (auto split: option.splits)
  with m'(1,2) m1(1) e show ?case by simp
qed

lemma mergeTabItems_Inr: "ss \<noteq> [] \<Longrightarrow> mergeTabItems os ss = Inr (mergedItems os ss)"
  by (cases ss) (simp_all add: mergeTabItems_def mergedItems_def)

lemma mergeWith_groups:
  "\<exists>m'. mergeWith h mergeTabItems (groupBy url os) (groupBy url bs) = Inr m' \<and>
     distinct (map fst m') \<and>
     (\<forall>k. map_of m' k =
        (if k \<in> url ` set bs then
           Some (if k \<in> url ` set os
                 then mergedItems (filter (\<lambda>x. url x = k) os) (filter (\<lambda>x. url x = k) bs)
                 else filter (\<lambda>x. url x = k) bs)
         else if k \<in> url ` set os then Some (filter (\<lambda>x. url x = k) os) else None))"
proof -
  let ?other = "entries h (groupBy url bs)"
  have d: "distinct (map fst ?other)" by (simp add: distinct_entries distinct_groupBy)
  have tot: "mergeTabItems v' v = Inr (mergedItems v' v)" if "v \<in> snd ` set ?other" for v v'
  proof -
    from that obtain k where "(k, v) \<in> set (groupBy url bs)" by (auto simp: set_entries)
    from groupBy_nonempty [OF this] show ?thesis by (rule mergeTabItems_Inr)
  qed
  from mergeEntries_Inr [of ?other mergeTabItems mergedItems "groupBy url os", OF d tot distinct_groupBy]
  obtain m' where m': "mergeEntries mergeTabItems (groupBy url os) ?other = Inr m'"
    "distinct (map fst m')"
    "\<forall>x. map_of m' x =
       (case map_of ?other x of
          None \<Rightarrow> map_of (groupBy url os) x
        | Some v \<Rightarrow> Some (case map_of (groupBy url os) x of None \<Rightarrow> v | Some v' \<Rightarrow> mergedItems v' v))"
    by blast
  have "map_of ?other = map_of (groupBy url bs)"
    by (rule map_of_entries [OF distinct_groupBy])
  with m'(3) have "\<forall>k. map_of m' k =
        (if k \<in> url ` set bs then
           Some (if k \<in> url ` set os
                 then mergedItems (filter (\<lambda>x. url x = k) os) (filter (\<lambda>x. url x = k) bs)
                 else filter (\<lambda>x. url x = k) bs)
         else if k \<in> url ` set os then Some (filter (\<lambda>x. url x = k) os) else None)"
    by (simp add: map_of_groupBy)
  with m'(1,2) show ?thesis by (auto simp: mergeWith_def)
qed

subsection \<open>sortBy\<close>

lemma mapSeq_Inr_iff: "mapSeq f xs = Inr ks \<longleftrightarrow> map f xs = map Inr ks"
proof (induction xs arbitrary: ks)
  case Nil
  then show ?case by auto
next
  case (Cons x xs)
  show ?case
  proof (cases ks)
    case Nil
    then show ?thesis by (simp split: sum.splits)
  next
    case (Cons k ks')
    with Cons.IH [of ks'] show ?thesis by (auto split: sum.splits)
  qed
qed

lemma mapSeq_total:
  "(\<forall>x\<in>set xs. \<exists>k. f x = Inr k) \<Longrightarrow> \<exists>ks. mapSeq f xs = Inr ks"
  by (induction xs) (auto split: sum.splits)

lemma sortBy_Inr:
  assumes "sortBy mapper xs = Inr ys"
  shows "mset ys = mset xs \<and> ascendingBy mapper ys"
proof -
  from assms obtain ks0 where ks0: "mapSeq mapper xs = Inr ks0"
    and ys: "ys = map snd (sort_key fst (zip ks0 xs))"
    by (auto simp: sortBy_def split: sum.splits)
  from ks0 have maps: "map mapper xs = map Inr ks0" by (simp add: mapSeq_Inr_iff)
  then have len: "length ks0 = length xs" by (metis length_map)
  let ?zs = "sort_key fst (zip ks0 xs)"
  have pair: "mapper x = Inr k" if "(k, x) \<in> set ?zs" for k x
  proof -
    from that have "(k, x) \<in> set (zip ks0 xs)" by simp
    then obtain i where i: "i < length xs" "ks0 ! i = k" "xs ! i = x"
      by (auto simp: in_set_zip)
    from maps i(1) have "map mapper xs ! i = map Inr ks0 ! i" by simp
    with i len show ?thesis by simp
  qed
  have "map mapper ys = map Inr (map fst ?zs)"
    unfolding ys using pair by (auto simp: comp_def)
  then have "mapSeq mapper ys = Inr (map fst ?zs)" by (simp add: mapSeq_Inr_iff)
  moreover have "sorted (map fst ?zs)" by simp
  ultimately have asc: "ascendingBy mapper ys" by (simp add: ascendingBy_def)
  have "mset ys = image_mset snd (mset ?zs)" by (simp add: ys)
  also have "\<dots> = image_mset snd (mset (zip ks0 xs))" by (simp only: mset_sort)
  also have "\<dots> = mset (map snd (zip ks0 xs))" by simp
  also have "\<dots> = mset xs" using len by simp
  finally show ?thesis using asc by simp
qed

lemma sortBy_total:
  "(\<forall>x\<in>set xs. \<exists>k. mapper x = Inr k) \<Longrightarrow> \<exists>ys. sortBy mapper xs = Inr ys"
  using mapSeq_total [of xs mapper] by (auto simp: sortBy_def)

section \<open>Lemmas about the reconciliation engine\<close>

lemma find_filter: "find P xs = (case filter P xs of [] \<Rightarrow> None | x # _ \<Rightarrow> Some x)"
  by (induction xs) auto

lemma url_resetSavedItem [simp]: "url (resetSavedItem s) = url s"
  by (simp add: resetSavedItem_def)

lemma filter_baseSaved:
  "filter (\<lambda>x. url x = k) (map resetSavedItem (filter saved items)) =
     map resetSavedItem (filter (\<lambda>ti. saved ti \<and> url ti = k) items)"
  by (induction items) auto

lemma firstSaved_None:
  "firstSaved items k = None \<longleftrightarrow> k \<notin> url ` set (map resetSavedItem (filter saved items))"
  by (auto simp: firstSaved_def find_None_iff image_iff)

lemma firstSaved_hd:
  "firstSaved items k = Some s \<Longrightarrow>
     hd (filter (\<lambda>x. url x = k) (map resetSavedItem (filter saved items))) = resetSavedItem s"
  by (simp add: firstSaved_def find_filter filter_baseSaved split: list.splits)

lemma attachSaved_merged:
  assumes "url o' \<in> url ` set (map resetSavedItem (filter saved items))"
  shows "o'\<lparr>saved := True,
            savedState := savedState (hd (filter (\<lambda>x. url x = url o')
                                          (map resetSavedItem (filter saved items))))\<rparr> =
         attachSaved items o'"
proof -
  from assms obtain s where s: "firstSaved items (url o') = Some s"
    using firstSaved_None [of items "url o'"] by auto
  from firstSaved_hd [OF s] s show ?thesis
    by (simp add: attachSaved_def resetSavedItem_def)
qed

lemma attachSaved_unmatched:
  "url o' \<notin> url ` set (map resetSavedItem (filter saved items)) \<Longrightarrow> attachSaved items o' = o'"
  using firstSaved_None [of items "url o'"] by (simp add: attachSaved_def)

lemma makeOpenTabItem_fields:
  "open (makeOpenTabItem t)" "\<not> saved (makeOpenTabItem t)"
  "openState (makeOpenTabItem t) = Some (makeOpenTabState t)"
  "savedState (makeOpenTabItem t) = None"
  by (simp_all add: makeOpenTabItem_def Let_def)

lemma open_attachSaved: "open (attachSaved items (makeOpenTabItem t))"
  by (simp add: attachSaved_def makeOpenTabItem_fields split: option.splits)

lemma openTabIndexOf_attachSaved:
  "openTabIndexOf (attachSaved items (makeOpenTabItem t)) = Inr (tabIndex t)"
  by (simp add: attachSaved_def makeOpenTabItem_fields makeOpenTabState_def Let_def
      openTabIndexOf_def split: option.splits)

lemma getOpenTabInfo_Inr:
  "\<exists>flat. getOpenTabInfo h items (Some tabs) = Inr (groupBy open flat) \<and>
     (\<forall>x. x \<in> set flat \<longleftrightarrow>
        x \<in> attachSaved items ` makeOpenTabItem ` set tabs \<or>
        (\<exists>s\<in>set items. saved s \<and> url s \<notin> url ` makeOpenTabItem ` set tabs \<and>
            x = resetSavedItem s)) \<and>
     (filter saved items = [] \<longrightarrow> mset flat = mset (map makeOpenTabItem tabs))"
proof -
  let ?os = "map makeOpenTabItem tabs"
  let ?bs = "map resetSavedItem (filter saved items)"
  from mergeWith_groups [of h ?os ?bs] obtain m'
    where m': "mergeWith h mergeTabItems (groupBy url ?os) (groupBy url ?bs) = Inr m'"
      and d: "distinct (map fst m')"
      and look: "\<And>k. map_of m' k =
        (if k \<in> url ` set ?bs then
           Some (if k \<in> url ` set ?os
                 then mergedItems (filter (\<lambda>x. url x = k) ?os) (filter (\<lambda>x. url x = k) ?bs)
                 else filter (\<lambda>x. url x = k) ?bs)
         else if k \<in> url ` set ?os then Some (filter (\<lambda>x. url x = k) ?os) else None)"
    by blast
  let ?flat = "concat (toIndexedSeq h m')"
  have ret: "getOpenTabInfo h items (Some tabs) = Inr (groupBy open ?flat)"
    using m' by (simp add: getOpenTabInfo_def)
  have mem: "x \<in> set ?flat \<longleftrightarrow> (\<exists>k vs. map_of m' k = Some vs \<and> x \<in> set vs)" for x
    using d by (simp only: set_toIndexedSeq map_of_eq_Some_iff)
  have chr: "x \<in> set ?flat \<longleftrightarrow>
        x \<in> attachSaved items ` makeOpenTabItem ` set tabs \<or>
        (\<exists>s\<in>set items. saved s \<and> url s \<notin> url ` makeOpenTabItem ` set tabs \<and>
            x = resetSavedItem s)" (is "?L \<longleftrightarrow> ?A \<or> ?B") for x
  proof
    assume ?L
    then obtain k vs where kv: "map_of m' k = Some vs" and x: "x \<in> set vs" using mem by blast
    show "?A \<or> ?B"
    proof (cases "k \<in> url ` set ?bs")
      case inb: True
      show ?thesis
      proof (cases "k \<in> url ` set ?os")
        case True
        with inb kv look [of k]
        have "vs = mergedItems (filter (\<lambda>x. url x = k) ?os) (filter (\<lambda>x. url x = k) ?bs)" by simp
        with x obtain o' where o': "o' \<in> set ?os" "url o' = k"
          "x = o'\<lparr>saved := True, savedState := savedState (hd (filter (\<lambda>x. url x = k) ?bs))\<rparr>"
          by (auto simp: mergedItems_def)
        from inb o'(2) have "url o' \<in> url ` set ?bs" by simp
        from attachSaved_merged [OF this] o'(2,3) have "x = attachSaved items o'" by simp
        with o'(1) have ?A by auto
        then show ?thesis ..
      next
        case False
        with inb kv look [of k] have "vs = filter (\<lambda>x. url x = k) ?bs" by simp
        with x False have ?B by auto
        then show ?thesis ..
      qed
    next
      case notb: False
      with kv look [of k] have ino: "k \<in> url ` set ?os" and vs: "vs = filter (\<lambda>x. url x = k) ?os"
        by (auto split: if_splits)
      from x vs have xo: "x \<in> set ?os" and ux: "url x = k" by auto
      from notb ux have "url x \<notin> url ` set ?bs" by simp
      from attachSaved_unmatched [OF this] xo have ?A by force
      then show ?thesis ..
    qed
  next
    assume "?A \<or> ?B"
    then show ?L
    proof
      assume ?A
      then obtain o' where o': "o' \<in> set ?os" and x: "x = attachSaved items o'" by auto
      let ?k = "url o'"
      from o' have ino: "?k \<in> url ` set ?os" by blast
      have o'f: "o' \<in> set (filter (\<lambda>x. url x = ?k) ?os)" using o' by simp
      show ?L
      proof (cases "?k \<in> url ` set ?bs")
        case True
        with ino look [of ?k] have
          kv: "map_of m' ?k = Some (mergedItems (filter (\<lambda>x. url x = ?k) ?os) (filter (\<lambda>x. url x = ?k) ?bs))"
          by simp
        from attachSaved_merged [OF True] x
        have "x = o'\<lparr>saved := True, savedState := savedState (hd (filter (\<lambda>x. url x = ?k) ?bs))\<rparr>"
          by simp
        with o'f have "x \<in> set (mergedItems (filter (\<lambda>x. url x = ?k) ?os) (filter (\<lambda>x. url x = ?k) ?bs))"
          unfolding mergedItems_def by (metis (no_types, lifting) image_eqI list.set_map)
        with kv mem show ?thesis by blast
      next
        case False
        with ino look [of ?k] have kv: "map_of m' ?k = Some (filter (\<lambda>x. url x = ?k) ?os)" by simp
        from attachSaved_unmatched [OF False] x have "x = o'" by simp
        with o'f kv mem show ?thesis by blast
      qed
    next
      assume ?B
      then obtain s where s: "s \<in> set items" "saved s" "url s \<notin> url ` makeOpenTabItem ` set tabs"
        and x: "x = resetSavedItem s" by blast
      let ?k = "url s"
      from s(1,2) x have xb: "x \<in> set ?bs" by simp
      have "url x = ?k" using x by simp
      with xb have inb: "?k \<in> url ` set ?bs" by (metis image_eqI)
      from s(3) have "?k \<notin> url ` set ?os" by simp
      with inb look [of ?k] have kv: "map_of m' ?k = Some (filter (\<lambda>x. url x = ?k) ?bs)" by simp
      from xb x have "x \<in> set (filter (\<lambda>x. url x = ?k) ?bs)" by simp
      with kv mem show ?L by blast
    qed
  qed
  have nosaved: "mset ?flat = mset ?os" if "filter saved items = []"
  proof -
    from that m' have "m' = groupBy url ?os"
      by (simp add: mergeWith_def groupBy_def entries_def)
    then show ?thesis by (simp add: mset_toIndexedSeq mset_groupBy)
  qed
  from ret chr nosaved show ?thesis by blast
qed

lemma mergeOpenTabs_cases:
  "\<exists>flat. (\<forall>x. x \<in> set flat \<longleftrightarrow>
        x \<in> attachSaved items ` makeOpenTabItem ` set tabs \<or>
        (\<exists>s\<in>set items. saved s \<and> url s \<notin> url ` makeOpenTabItem ` set tabs \<and>
            x = resetSavedItem s)) \<and>
     (filter saved items = [] \<longrightarrow> mset flat = mset (map makeOpenTabItem tabs)) \<and>
     mergeOpenTabs h items (Some tabs) =
       (case sortBy openTabIndexOf (filter open flat) of
          Inl e \<Rightarrow> Inl e
        | Inr openTabItems \<Rightarrow>
            (case sortBy bookmarkIndexOf (filter (\<lambda>x. \<not> open x) flat) of
               Inl e \<Rightarrow> Inl e
             | Inr closedTabItems \<Rightarrow> Inr (openTabItems @ closedTabItems)))"
proof -
  from getOpenTabInfo_Inr [of h items tabs] obtain flat
    where ret: "getOpenTabInfo h items (Some tabs) = Inr (groupBy open flat)"
      and chr: "\<forall>x. x \<in> set flat \<longleftrightarrow>
        x \<in> attachSaved items ` makeOpenTabItem ` set tabs \<or>
        (\<exists>s\<in>set items. saved s \<and> url s \<notin> url ` makeOpenTabItem ` set tabs \<and>
            x = resetSavedItem s)"
      and ns: "filter saved items = [] \<longrightarrow> mset flat = mset (map makeOpenTabItem tabs)"
    by blast
  have "getOr (groupBy open flat) True [] = filter open flat"
    by (simp add: getOr_groupBy)
  moreover have "getOr (groupBy open flat) False [] = filter (\<lambda>x. \<not> open x) flat"
    by (simp add: getOr_groupBy)
  ultimately have "mergeOpenTabs h items (Some tabs) =
       (case sortBy openTabIndexOf (filter open flat) of
          Inl e \<Rightarrow> Inl e
        | Inr openTabItems \<Rightarrow>
            (case sortBy bookmarkIndexOf (filter (\<lambda>x. \<not> open x) flat) of
               Inl e \<Rightarrow> Inl e
             | Inr closedTabItems \<Rightarrow> Inr (openTabItems @ closedTabItems)))"
    using ret by (simp add: mergeOpenTabs_def cong: sum.case_cong)
  with chr ns show ?thesis by blast
qed

lemma mergeOpenTabs_Inr:
  assumes "mergeOpenTabs h items (Some tabs) = Inr out"
  shows "\<exists>flat so sc.
     (\<forall>x. x \<in> set flat \<longleftrightarrow>
        x \<in> attachSaved items ` makeOpenTabItem ` set tabs \<or>
        (\<exists>s\<in>set items. saved s \<and> url s \<notin> url ` makeOpenTabItem ` set tabs \<and>
            x = resetSavedItem s)) \<and>
     (filter saved items = [] \<longrightarrow> mset flat = mset (map makeOpenTabItem tabs)) \<and>
     sortBy openTabIndexOf (filter open flat) = Inr so \<and>
     sortBy bookmarkIndexOf (filter (\<lambda>x. \<not> open x) flat) = Inr sc \<and>
     out = so @ sc"
proof -
  from mergeOpenTabs_cases [of items tabs h] obtain flat
    where chr: "\<forall>x. x \<in> set flat \<longleftrightarrow>
        x \<in> attachSaved items ` makeOpenTabItem ` set tabs \<or>
        (\<exists>s\<in>set items. saved s \<and> url s \<notin> url ` makeOpenTabItem ` set tabs \<and>
            x = resetSavedItem s)"
      and ns: "filter saved items = [] \<longrightarrow> mset flat = mset (map makeOpenTabItem tabs)"
      and eq: "mergeOpenTabs h items (Some tabs) =
       (case sortBy openTabIndexOf (filter open flat) of
          Inl e \<Rightarrow> Inl e
        | Inr openTabItems \<Rightarrow>
            (case sortBy bookmarkIndexOf (filter (\<lambda>x. \<not> open x) flat) of
               Inl e \<Rightarrow> Inl e
             | Inr closedTabItems \<Rightarrow> Inr (openTabItems @ closedTabItems)))"
    by blast
  from eq assms obtain so sc where "sortBy openTabIndexOf (filter open flat) = Inr so"
    "sortBy bookmarkIndexOf (filter (\<lambda>x. \<not> open x) flat) = Inr sc" "out = so @ sc"
    by (auto split: sum.splits)
  with chr ns show ?thesis by blast
qed

lemma mset_open_partition: "mset (filter open flat) + mset (filter (\<lambda>x. \<not> open x) flat) = mset flat"
  by (induction flat) auto

lemma mergeOpenTabs_total:
  assumes wf: "list_all wf_TabItem items"
  shows "\<exists>out. mergeOpenTabs h items (Some tabs) = Inr out"
proof -
  from mergeOpenTabs_cases [of items tabs h] obtain flat
    where chr: "\<forall>x. x \<in> set flat \<longleftrightarrow>
        x \<in> attachSaved items ` makeOpenTabItem ` set tabs \<or>
        (\<exists>s\<in>set items. saved s \<and> url s \<notin> url ` makeOpenTabItem ` set tabs \<and>
            x = resetSavedItem s)"
      and eq: "mergeOpenTabs h items (Some tabs) =
       (case sortBy openTabIndexOf (filter open flat) of
          Inl e \<Rightarrow> Inl e
        | Inr openTabItems \<Rightarrow>
            (case sortBy bookmarkIndexOf (filter (\<lambda>x. \<not> open x) flat) of
               Inl e \<Rightarrow> Inl e
             | Inr closedTabItems \<Rightarrow> Inr (openTabItems @ closedTabItems)))"
    by blast
  have "\<forall>x\<in>set (filter open flat). \<exists>k. openTabIndexOf x = Inr k"
  proof
    fix x assume "x \<in> set (filter open flat)"
    then have x: "x \<in> set flat" "open x" by auto
    with chr have "x \<in> attachSaved items ` makeOpenTabItem ` set tabs"
      by (auto simp: resetSavedItem_def)
    then show "\<exists>k. openTabIndexOf x = Inr k" by (auto simp: openTabIndexOf_attachSaved)
  qed
  from sortBy_total [OF this] obtain so where so: "sortBy openTabIndexOf (filter open flat) = Inr so" ..
  have "\<forall>x\<in>set (filter (\<lambda>x. \<not> open x) flat). \<exists>k. bookmarkIndexOf x = Inr k"
  proof
    fix x assume "x \<in> set (filter (\<lambda>x. \<not> open x) flat)"
    then have x: "x \<in> set flat" "\<not> open x" by auto
    with chr obtain s where s: "s \<in> set items" "saved s" "x = resetSavedItem s"
      by (auto simp: open_attachSaved)
    from wf s(1,2) obtain st where "savedState s = Some st"
      by (auto simp: list_all_iff wf_TabItem_def)
    with s(3) show "\<exists>k. bookmarkIndexOf x = Inr k"
      by (simp add: bookmarkIndexOf_def resetSavedItem_def)
  qed
  from sortBy_total [OF this] obtain sc
    where "sortBy bookmarkIndexOf (filter (\<lambda>x. \<not> open x) flat) = Inr sc" ..
  with so eq show ?thesis by simp
qed

lemma mergeOpenTabs_ordered:
  assumes "mergeOpenTabs h items (Some tabs) = Inr out"
  shows "\<exists>opens closeds. out = opens @ closeds \<and> list_all open opens \<and>
           list_all (\<lambda>ti. \<not> open ti) closeds \<and>
           ascendingBy openTabIndexOf opens \<and> ascendingBy bookmarkIndexOf closeds"
proof -
  from mergeOpenTabs_Inr [OF assms] obtain flat so sc
    where so: "sortBy openTabIndexOf (filter open flat) = Inr so"
      and sc: "sortBy bookmarkIndexOf (filter (\<lambda>x. \<not> open x) flat) = Inr sc"
      and out: "out = so @ sc" by blast
  from sortBy_Inr [OF so] have mso: "mset so = mset (filter open flat)"
    and aso: "ascendingBy openTabIndexOf so" by simp_all
  from sortBy_Inr [OF sc] have msc: "mset sc = mset (filter (\<lambda>x. \<not> open x) flat)"
    and asc: "ascendingBy bookmarkIndexOf sc" by simp_all
  from mso have "set so = set (filter open flat)" by (rule mset_eq_setD)
  then have o: "list_all open so" by (auto simp: list_all_iff)
  from msc have "set sc = set (filter (\<lambda>x. \<not> open x) flat)" by (rule mset_eq_setD)
  then have c: "list_all (\<lambda>ti. \<not> open ti) sc" by (auto simp: list_all_iff)
  from out o c aso asc show ?thesis by blast
qed

lemma mergeOpenTabs_set:
  assumes "mergeOpenTabs h items (Some tabs) = Inr out"
  shows "set out = attachSaved items ` makeOpenTabItem ` set tabs \<union>
           resetSavedItem ` {s \<in> set items. saved s \<and> url s \<notin> url ` makeOpenTabItem ` set tabs}"
proof -
  from mergeOpenTabs_Inr [OF assms] obtain flat so sc
    where chr: "\<forall>x. x \<in> set flat \<longleftrightarrow>
        x \<in> attachSaved items ` makeOpenTabItem ` set tabs \<or>
        (\<exists>s\<in>set items. saved s \<and> url s \<notin> url ` makeOpenTabItem ` set tabs \<and>
            x = resetSavedItem s)"
      and so: "sortBy openTabIndexOf (filter open flat) = Inr so"
      and sc: "sortBy bookmarkIndexOf (filter (\<lambda>x. \<not> open x) flat) = Inr sc"
      and out: "out = so @ sc" by blast
  from sortBy_Inr [OF so] sortBy_Inr [OF sc] out
  have "mset out = mset (filter open flat) + mset (filter (\<lambda>x. \<not> open x) flat)" by simp
  then have "mset out = mset flat" by (simp only: mset_open_partition)
  then have "set out = set flat" by (rule mset_eq_setD)
  with chr show ?thesis by blast
qed

lemma mergeOpenTabs_fresh:
  assumes "mergeOpenTabs h (map makeOpenTabItem ts) (Some tabs) = Inr out"
  shows "mset out = mset (map makeOpenTabItem tabs)"
proof -
  have ns: "filter saved (map makeOpenTabItem ts) = []"
    by (simp add: filter_empty_conv makeOpenTabItem_fields)
  from mergeOpenTabs_Inr [OF assms] ns obtain flat so sc
    where fl: "mset flat = mset (map makeOpenTabItem tabs)"
      and so: "sortBy openTabIndexOf (filter open flat) = Inr so"
      and sc: "sortBy bookmarkIndexOf (filter (\<lambda>x. \<not> open x) flat) = Inr sc"
      and out: "out = so @ sc" by blast
  from sortBy_Inr [OF so] sortBy_Inr [OF sc] out
  have "mset out = mset (filter open flat) + mset (filter (\<lambda>x. \<not> open x) flat)" by simp
  then have "mset out = mset flat" by (simp only: mset_open_partition)
  with fl show ?thesis by simp
qed

section \<open>Lemmas about the mutators\<close>

lemma isOpenTab_wf: "wf_TabItem ti \<Longrightarrow> isOpenTab t ti = Inr (hasOpenTabId t ti)"
  by (auto simp: isOpenTab_def hasOpenTabId_def wf_TabItem_def split: option.splits)

lemma isActiveTab_wf: "wf_TabItem ti \<Longrightarrow> isActiveTab ti = Inr (isActiveItem ti)"
  by (auto simp: isActiveTab_def isActiveItem_def wf_TabItem_def split: option.splits)

lemma isOpenTab_True: "isOpenTab t ti = Inr True \<Longrightarrow> hasOpenTabId t ti"
  by (auto simp: isOpenTab_def hasOpenTabId_def split: option.splits if_splits)

lemma isActiveTab_Inr: "isActiveTab ti = Inr b \<Longrightarrow> b = isActiveItem ti"
  by (auto simp: isActiveTab_def isActiveItem_def split: option.splits if_splits)

lemma wf_update: "wf_TabWindow tw \<Longrightarrow> wf_TabItem y \<Longrightarrow> wf_TabWindow (tw\<lparr>tabItems := (tabItems tw)[i := y]\<rparr>)"
  by (auto simp: wf_TabWindow_def list_all_iff dest: set_update_subset_insert [THEN subsetD])

lemma setActiveTab_count:
  assumes le: "activeCount tw \<le> 1" and ret: "setActiveTab tw t = Inr tw'"
  shows "activeCount tw' \<le> 1"
proof (cases "findEntry (isOpenTab t) (tabItems tw)")
  case (Inl e)
  with ret show ?thesis by (simp add: setActiveTab_def)
next
  case (Inr tabPos)
  show ?thesis
  proof (cases tabPos)
    case None
    with Inr ret le show ?thesis by (simp add: setActiveTab_def)
  next
    case (Some pos)
    obtain index tabItem where pos: "pos = (index, tabItem)" by (cases pos)
    from Inr Some pos have found: "findEntry (isOpenTab t) (tabItems tw) = Inr (Some (index, tabItem))"
      by simp
    from findEntry_SomeD [OF found] have index: "index < length (tabItems tw)" by simp
    show ?thesis
    proof (cases "findEntry isActiveTab (tabItems tw)")
      case (Inl e)
      with found ret show ?thesis by (simp add: setActiveTab_def tabItemActive_def)
    next
      case prev: (Inr prevPos)
      show ?thesis
      proof (cases "openState tabItem")
        case None
        with found prev ret show ?thesis
          by (simp add: setActiveTab_def tabItemActive_def split: option.splits sum.splits prod.splits)
      next
        case os: (Some os)
        let ?upd = "tabItem\<lparr>openState := Some (os\<lparr>active := True\<rparr>)\<rparr>"
        show ?thesis
        proof (cases prevPos)
          case None
          from findEntry_NoneD prev None have "\<forall>x\<in>set (tabItems tw). isActiveTab x = Inr False"
            by blast
          then have "\<forall>x\<in>set (tabItems tw). \<not> isActiveItem x"
            using isActiveTab_Inr by blast
          then have zero: "length (filter isActiveItem (tabItems tw)) = 0"
            by (simp add: filter_empty_conv)
          from found prev None os ret index have "tabItems tw' = (tabItems tw)[index := ?upd]"
            by (auto simp: setActiveTab_def tabItemActive_def spliceSeq_replace)
          with count_update_zero [OF index zero] show ?thesis by (simp add: activeCount_def)
        next
          case (Some ppos)
          obtain prevIndex prevActiveTab where ppos: "ppos = (prevIndex, prevActiveTab)"
            by (cases ppos)
          from prev Some ppos have pfound:
            "findEntry isActiveTab (tabItems tw) = Inr (Some (prevIndex, prevActiveTab))" by simp
          from findEntry_SomeD [OF pfound] have pidx: "prevIndex < length (tabItems tw)"
            and pitem: "prevActiveTab = tabItems tw ! prevIndex"
            and pact: "isActiveTab prevActiveTab = Inr True" by auto
          from pact isActiveTab_Inr have act: "isActiveItem prevActiveTab" by blast
          then obtain pos' where pos': "openState prevActiveTab = Some pos'"
            by (auto simp: isActiveItem_def)
          let ?cleared = "prevActiveTab\<lparr>openState := Some (pos'\<lparr>active := False\<rparr>)\<rparr>"
          let ?non = "(tabItems tw)[prevIndex := ?cleared]"
          have nc: "\<not> isActiveItem ?cleared" by (simp add: isActiveItem_def)
          from act pitem have pa: "isActiveItem (tabItems tw ! prevIndex)" by simp
          from le have le': "length (filter isActiveItem (tabItems tw)) \<le> 1"
            by (simp add: activeCount_def)
          have zero: "length (filter isActiveItem ?non) = 0"
            by (rule count_clear_one [OF pidx pa nc le'])
          have idx': "index < length ?non" using index by simp
          from found pfound pos' os ret index pidx have "tabItems tw' = ?non[index := ?upd]"
            by (auto simp: setActiveTab_def tabItemActive_def spliceSeq_replace)
          with count_update_zero [OF idx' zero] show ?thesis by (simp add: activeCount_def)
        qed
      qed
    qed
  qed
qed

lemma setActiveTab_total:
  assumes wf: "wf_TabWindow tw"
  shows "\<exists>tw'. setActiveTab tw t = Inr tw' \<and> wf_TabWindow tw'"
proof -
  from wf have items: "\<forall>x\<in>set (tabItems tw). wf_TabItem x"
    by (simp add: wf_TabWindow_def list_all_iff)
  then obtain tabPos where tp: "findEntry (isOpenTab t) (tabItems tw) = Inr tabPos"
    using findEntry_wf_total [of "tabItems tw" "isOpenTab t"] isOpenTab_wf by blast
  show ?thesis
  proof (cases tabPos)
    case None
    with tp wf show ?thesis by (simp add: setActiveTab_def)
  next
    case (Some pos)
    obtain index tabItem where pos: "pos = (index, tabItem)" by (cases pos)
    from tp Some pos have found: "findEntry (isOpenTab t) (tabItems tw) = Inr (Some (index, tabItem))"
      by simp
    from findEntry_SomeD [OF found] have index: "index < length (tabItems tw)"
      and item: "tabItem = tabItems tw ! index" and hit: "isOpenTab t tabItem = Inr True" by auto
    from item index items have wfi: "wf_TabItem tabItem" by simp
    from isOpenTab_True [OF hit] obtain os where os: "openState tabItem = Some os" and op: "open tabItem"
      by (auto simp: hasOpenTabId_def)
    let ?upd = "tabItem\<lparr>openState := Some (os\<lparr>active := True\<rparr>)\<rparr>"
    have wfu: "wf_TabItem ?upd" using wfi op by (simp add: wf_TabItem_def)
    from items obtain prevPos where pp: "findEntry isActiveTab (tabItems tw) = Inr prevPos"
      using findEntry_wf_total [of "tabItems tw" isActiveTab] isActiveTab_wf by blast
    show ?thesis
    proof (cases prevPos)
      case None
      with found pp os index have "setActiveTab tw t = Inr (tw\<lparr>tabItems := (tabItems tw)[index := ?upd]\<rparr>)"
        by (simp add: setActiveTab_def tabItemActive_def spliceSeq_replace)
      with wf_update [OF wf wfu] show ?thesis by simp
    next
      case (Some ppos)
      obtain prevIndex prevActiveTab where ppos: "ppos = (prevIndex, prevActiveTab)"
        by (cases ppos)
      from pp Some ppos have pfound:
        "findEntry isActiveTab (tabItems tw) = Inr (Some (prevIndex, prevActiveTab))" by simp
      from findEntry_SomeD [OF pfound] have pidx: "prevIndex < length (tabItems tw)"
        and pitem: "prevActiveTab = tabItems tw ! prevIndex"
        and pact: "isActiveTab prevActiveTab = Inr True" by auto
      from pact isActiveTab_Inr have act: "isActiveItem prevActiveTab" by blast
      then obtain pos' where pos': "openState prevActiveTab = Some pos'" and pop: "open prevActiveTab"
        by (auto simp: isActiveItem_def)
      let ?cleared = "prevActiveTab\<lparr>openState := Some (pos'\<lparr>active := False\<rparr>)\<rparr>"
      from pitem pidx items have "wf_TabItem prevActiveTab" by simp
      with pop have wfc: "wf_TabItem ?cleared" by (simp add: wf_TabItem_def)
      let ?tw1 = "tw\<lparr>tabItems := (tabItems tw)[prevIndex := ?cleared]\<rparr>"
      have wf1: "wf_TabWindow ?tw1" by (rule wf_update [OF wf wfc])
      from found pfound pos' os index pidx
      have "setActiveTab tw t = Inr (tw\<lparr>tabItems := (tabItems tw)[prevIndex := ?cleared, index := ?upd]\<rparr>)"
        by (simp add: setActiveTab_def tabItemActive_def spliceSeq_replace)
      moreover from wf_update [OF wf1 wfu, of index]
      have "wf_TabWindow (tw\<lparr>tabItems := (tabItems tw)[prevIndex := ?cleared, index := ?upd]\<rparr>)"
        by simp
      ultimately show ?thesis by simp
    qed
  qed
qed

lemma setActiveTabs_count:
  "activeCount tw \<le> 1 \<Longrightarrow> setActiveTabs tw ts = Inr tw' \<Longrightarrow> activeCount tw' \<le> 1"
proof (induction ts arbitrary: tw)
  case Nil
  then show ?case by simp
next
  case (Cons t ts)
  from Cons.prems(2) obtain tw1 where step: "setActiveTab tw t = Inr tw1"
    and rest: "setActiveTabs tw1 ts = Inr tw'" by (auto split: sum.splits)
  from setActiveTab_count [OF Cons.prems(1) step] have "activeCount tw1 \<le> 1" .
  from Cons.IH [OF this rest] show ?case .
qed

lemma setActiveTabs_total:
  "wf_TabWindow tw \<Longrightarrow> \<exists>tw'. setActiveTabs tw ts = Inr tw'"
proof (induction ts arbitrary: tw)
  case Nil
  then show ?case by simp
next
  case (Cons t ts)
  from setActiveTab_total [OF Cons.prems, of t] obtain tw1
    where "setActiveTab tw t = Inr tw1" "wf_TabWindow tw1" by blast
  with Cons.IH [of tw1] show ?case by simp
qed

section \<open>The claims\<close>

subsection \<open>C1: partition and order of the reconciled sequence\<close>

text \<open>
  C1. Whenever \<open>mergeOpenTabs\<close> returns a sequence for a prior sequence and a list of live
  tabs, the sequence consists of open items followed by closed items, the open items are
  in ascending order of \<open>openState.openTabIndex\<close> and the closed items in ascending
  order of \<open>savedState.bookmarkIndex\<close>. It does return a sequence for every list of live
  tabs and every prior sequence whose items satisfy the invariant of TabItem. This holds
  for every order \<open>h\<close> in which the hash maps are iterated.
\<close>

theorem mergeOpenTabs_partition_order:
  "(list_all wf_TabItem tabItems' \<longrightarrow> (\<exists>out. mergeOpenTabs h tabItems' (Some openTabs) = Inr out)) \<and>
   (\<forall>out. mergeOpenTabs h tabItems' (Some openTabs) = Inr out \<longrightarrow>
      (\<exists>opens closeds.
          out = opens @ closeds \<and>
          list_all open opens \<and> list_all (\<lambda>ti. \<not> open ti) closeds \<and>
          ascendingBy openTabIndexOf opens \<and> ascendingBy bookmarkIndexOf closeds))"
  using mergeOpenTabs_total mergeOpenTabs_ordered by blast

theorem mergeOpenTabs_partition_order_witness:
  "list_all wf_TabItem exPrior \<and>
   mergeOpenTabs (\<lambda>u. 0) exPrior (Some [exTabB, exTabA]) = Inr exMerged \<and>
   (\<exists>opens closeds.
       exMerged = opens @ closeds \<and>
       list_all open opens \<and> list_all (\<lambda>ti. \<not> open ti) closeds \<and>
       ascendingBy openTabIndexOf opens \<and> ascendingBy bookmarkIndexOf closeds)"
proof -
  have wf: "list_all wf_TabItem exPrior" by code_simp
  have run: "mergeOpenTabs (\<lambda>u. 0) exPrior (Some [exTabB, exTabA]) = Inr exMerged" by code_simp
  from mergeOpenTabs_partition_order [of exPrior "\<lambda>u. 0" "[exTabB, exTabA]"] run
  have "\<exists>opens closeds.
       exMerged = opens @ closeds \<and>
       list_all open opens \<and> list_all (\<lambda>ti. \<not> open ti) closeds \<and>
       ascendingBy openTabIndexOf opens \<and> ascendingBy bookmarkIndexOf closeds"
    by blast
  with wf run show ?thesis by blast
qed

subsection \<open>C2: merging by URL\<close>

text \<open>
  C2. Let \<open>mergeOpenTabs\<close> return \<open>out\<close>. For every live tab, the item made from it is in
  \<open>out\<close>: when the prior sequence has a saved item with the tab's URL, with
  \<open>saved = true\<close> and the \<open>savedState\<close> of the first such item (the same one for every
  live tab at that URL); when it has none, as it was made, open only. Every saved item
  of the prior sequence whose URL no live tab has is in \<open>out\<close> with \<open>open = false\<close>,
  \<open>openState = null\<close> and its \<open>savedState\<close> (and all else) unchanged.
\<close>

theorem mergeOpenTabs_by_url:
  assumes "mergeOpenTabs h tabItems' (Some openTabs) = Inr out"
  shows "(\<forall>t\<in>set openTabs.
            case firstSaved tabItems' (url (makeOpenTabItem t)) of
              Some s \<Rightarrow> (makeOpenTabItem t)\<lparr>saved := True, savedState := savedState s\<rparr> \<in> set out
            | None \<Rightarrow> makeOpenTabItem t \<in> set out \<and> \<not> saved (makeOpenTabItem t)) \<and>
         (\<forall>s\<in>set tabItems'.
            saved s \<and> url s \<notin> url ` makeOpenTabItem ` set openTabs \<longrightarrow>
            s\<lparr>open := False, openState := None\<rparr> \<in> set out)"
proof (intro conjI ballI impI)
  fix t assume "t \<in> set openTabs"
  then have "attachSaved tabItems' (makeOpenTabItem t) \<in> set out"
    unfolding mergeOpenTabs_set [OF assms] by blast
  then show "case firstSaved tabItems' (url (makeOpenTabItem t)) of
              Some s \<Rightarrow> (makeOpenTabItem t)\<lparr>saved := True, savedState := savedState s\<rparr> \<in> set out
            | None \<Rightarrow> makeOpenTabItem t \<in> set out \<and> \<not> saved (makeOpenTabItem t)"
    by (simp add: attachSaved_def makeOpenTabItem_fields split: option.splits)
next
  fix s assume "s \<in> set tabItems'" and "saved s \<and> url s \<notin> url ` makeOpenTabItem ` set openTabs"
  then have "resetSavedItem s \<in> set out"
    unfolding mergeOpenTabs_set [OF assms] by blast
  then show "s\<lparr>open := False, openState := None\<rparr> \<in> set out"
    by (simp add: resetSavedItem_def)
qed

theorem mergeOpenTabs_by_url_witness:
  "mergeOpenTabs (\<lambda>u. 0) exPrior (Some [exTabB, exTabA]) = Inr exMerged \<and>
   firstSaved exPrior (url (makeOpenTabItem exTabA)) = Some (makeBookmarkedTabItem exNodeA) \<and>
   (makeOpenTabItem exTabA)\<lparr>saved := True,
      savedState := savedState (makeBookmarkedTabItem exNodeA)\<rparr> \<in> set exMerged \<and>
   firstSaved exPrior (url (makeOpenTabItem exTabB)) = None \<and>
   makeOpenTabItem exTabB \<in> set exMerged \<and>
   (makeBookmarkedTabItem exNodeC)\<lparr>open := False, openState := None\<rparr> \<in> set exMerged"
proof -
  have run: "mergeOpenTabs (\<lambda>u. 0) exPrior (Some [exTabB, exTabA]) = Inr exMerged" by code_simp
  have fa: "firstSaved exPrior (url (makeOpenTabItem exTabA)) = Some (makeBookmarkedTabItem exNodeA)"
    by code_simp
  have fb: "firstSaved exPrior (url (makeOpenTabItem exTabB)) = None" by code_simp
  have c: "makeBookmarkedTabItem exNodeC \<in> set exPrior" by (simp add: exPrior_def)
  have sc: "saved (makeBookmarkedTabItem exNodeC)" by code_simp
  have uc: "url (makeBookmarkedTabItem exNodeC) \<notin> url ` makeOpenTabItem ` set [exTabB, exTabA]"
    by code_simp
  note both = mergeOpenTabs_by_url [OF run]
  from both have live: "\<forall>t\<in>set [exTabB, exTabA].
            case firstSaved exPrior (url (makeOpenTabItem t)) of
              Some s \<Rightarrow> (makeOpenTabItem t)\<lparr>saved := True, savedState := savedState s\<rparr> \<in> set exMerged
            | None \<Rightarrow> makeOpenTabItem t \<in> set exMerged \<and> \<not> saved (makeOpenTabItem t)"
    by (rule conjunct1)
  from both have closed: "\<forall>s\<in>set exPrior.
            saved s \<and> url s \<notin> url ` makeOpenTabItem ` set [exTabB, exTabA] \<longrightarrow>
            s\<lparr>open := False, openState := None\<rparr> \<in> set exMerged"
    by (rule conjunct2)
  from live fa have a: "(makeOpenTabItem exTabA)\<lparr>saved := True,
      savedState := savedState (makeBookmarkedTabItem exNodeA)\<rparr> \<in> set exMerged"
    by force
  from live fb have b: "makeOpenTabItem exTabB \<in> set exMerged" by force
  from closed c sc uc
  have "(makeBookmarkedTabItem exNodeC)\<lparr>open := False, openState := None\<rparr> \<in> set exMerged"
    by blast
  with run fa fb a b show ?thesis by blast
qed

subsection \<open>C3: at most one active tab\<close>

text \<open>
  C3. Let a window have at most one item with \<open>open = true\<close> and
  \<open>openState.active = true\<close>. Whatever the tab ids of a sequence of \<open>setActiveTab\<close>
  calls, found in the window or not, the window that the sequence returns has at most
  one such item again; and the sequence does return a window when the items of the
  first window satisfy the invariant of TabItem.
\<close>

theorem setActiveTabs_single_active:
  assumes "activeCount tw \<le> 1"
  shows "(\<forall>tw'. setActiveTabs tw ts = Inr tw' \<longrightarrow> activeCount tw' \<le> 1) \<and>
         (wf_TabWindow tw \<longrightarrow> (\<exists>tw'. setActiveTabs tw ts = Inr tw'))"
  using assms setActiveTabs_count setActiveTabs_total by blast

theorem setActiveTabs_single_active_witness:
  "activeCount exWindow \<le> 1 \<and> wf_TabWindow exWindow \<and>
   (\<exists>tw'. setActiveTabs exWindow [8, 9, 7, 8] = Inr tw' \<and> activeCount tw' \<le> 1)"
proof -
  have one: "activeCount exWindow \<le> 1" by code_simp
  have wf: "wf_TabWindow exWindow" by code_simp
  from setActiveTabs_single_active [OF one, of "[8, 9, 7, 8]"] wf
  have "\<exists>tw'. setActiveTabs exWindow [8, 9, 7, 8] = Inr tw' \<and> activeCount tw' \<le> 1"
    by blast
  with one wf show ?thesis by blast
qed

subsection \<open>C4: closing a tab\<close>

text \<open>
  C4. Let the item at position \<open>i\<close> of a window be the open item with the given tab id
  that \<open>closeTab\<close> finds, the first one (tab ids are unique among open tabs, so the only
  one). If the item is saved, \<open>closeTab\<close> returns the window with the item at position
  \<open>i\<close> replaced by the same item with \<open>open = false\<close> and \<open>openState = null\<close>, so
  \<open>saved\<close> stays true and \<open>savedState\<close> is unchanged. If it is not saved, \<open>closeTab\<close>
  returns the window with the item removed and the others in their order.
\<close>

theorem closeTab_found:
  assumes wf: "wf_TabWindow tw"
    and i: "i < length (tabItems tw)"
    and hit: "hasOpenTabId t (tabItems tw ! i)"
    and first: "\<forall>j<i. \<not> hasOpenTabId t (tabItems tw ! j)"
  shows "closeTab tw t =
           Inr (tw\<lparr>tabItems :=
                  (if saved (tabItems tw ! i)
                   then (tabItems tw)[i := (tabItems tw ! i)\<lparr>open := False, openState := None\<rparr>]
                   else take i (tabItems tw) @ drop (Suc i) (tabItems tw))\<rparr>)"
proof -
  let ?xs = "tabItems tw"
  from wf have p: "\<And>k. k < length ?xs \<Longrightarrow> isOpenTab t (?xs ! k) = Inr (hasOpenTabId t (?xs ! k))"
    by (simp add: wf_TabWindow_def list_all_length isOpenTab_wf)
  have "findEntryFrom 0 (isOpenTab t) ?xs = Inr (Some (0 + i, ?xs ! i))"
  proof (rule findEntryFrom_first [OF i])
    show "isOpenTab t (?xs ! i) = Inr True" using p [OF i] hit by simp
    show "\<forall>k<i. isOpenTab t (?xs ! k) = Inr False" using p first i by auto
  qed
  then have "findEntry (isOpenTab t) ?xs = Inr (Some (i, ?xs ! i))"
    by (simp add: findEntry_def)
  then show ?thesis
    using i by (simp add: closeTab_def spliceSeq_replace spliceSeq_remove resetSavedItem_def)
qed

theorem closeTab_found_witness:
  "wf_TabWindow exMergedWindow \<and>
   hasOpenTabId 7 (tabItems exMergedWindow ! 0) \<and> saved (tabItems exMergedWindow ! 0) \<and>
   closeTab exMergedWindow 7 =
     Inr (exMergedWindow\<lparr>tabItems :=
            [makeBookmarkedTabItem exNodeA, makeOpenTabItem exTabB, makeBookmarkedTabItem exNodeC]\<rparr>) \<and>
   hasOpenTabId 8 (tabItems exMergedWindow ! 1) \<and> \<not> saved (tabItems exMergedWindow ! 1) \<and>
   closeTab exMergedWindow 8 =
     Inr (exMergedWindow\<lparr>tabItems :=
            [(makeOpenTabItem exTabA)\<lparr>saved := True, savedState := Some (makeSavedTabState exNodeA)\<rparr>,
             makeBookmarkedTabItem exNodeC]\<rparr>)"
proof -
  have wf: "wf_TabWindow exMergedWindow" by code_simp
  have i0: "0 < length (tabItems exMergedWindow)" by code_simp
  have i1: "1 < length (tabItems exMergedWindow)" by code_simp
  have hit0: "hasOpenTabId 7 (tabItems exMergedWindow ! 0)" by code_simp
  have hit1: "hasOpenTabId 8 (tabItems exMergedWindow ! 1)" by code_simp
  have s0: "saved (tabItems exMergedWindow ! 0)" by code_simp
  have s1: "\<not> saved (tabItems exMergedWindow ! 1)" by code_simp
  have first0: "\<forall>j<0. \<not> hasOpenTabId 7 (tabItems exMergedWindow ! j)" by simp
  have "\<not> hasOpenTabId 8 (tabItems exMergedWindow ! 0)" by code_simp
  then have first1: "\<forall>j<1. \<not> hasOpenTabId 8 (tabItems exMergedWindow ! j)" by simp
  have v0: "(tabItems exMergedWindow)[0 := (tabItems exMergedWindow ! 0)\<lparr>open := False, openState := None\<rparr>] =
      [makeBookmarkedTabItem exNodeA, makeOpenTabItem exTabB, makeBookmarkedTabItem exNodeC]"
    by code_simp
  have v1: "take 1 (tabItems exMergedWindow) @ drop (Suc 1) (tabItems exMergedWindow) =
      [(makeOpenTabItem exTabA)\<lparr>saved := True, savedState := Some (makeSavedTabState exNodeA)\<rparr>,
       makeBookmarkedTabItem exNodeC]"
    by code_simp
  from closeTab_found [OF wf i0 hit0 first0] s0 v0
  have c0: "closeTab exMergedWindow 7 =
     Inr (exMergedWindow\<lparr>tabItems :=
            [makeBookmarkedTabItem exNodeA, makeOpenTabItem exTabB, makeBookmarkedTabItem exNodeC]\<rparr>)"
    by simp
  from closeTab_found [OF wf i1 hit1 first1] s1 v1
  have c1: "closeTab exMergedWindow 8 =
     Inr (exMergedWindow\<lparr>tabItems :=
            [(makeOpenTabItem exTabA)\<lparr>saved := True, savedState := Some (makeSavedTabState exNodeA)\<rparr>,
             makeBookmarkedTabItem exNodeC]\<rparr>)"
    by simp
  from wf hit0 s0 c0 hit1 s1 c1 show ?thesis by blast
qed

subsection \<open>C5: saving a tab\<close>

text \<open>
  What \<open>saveTab\<close> does when it finds the item: the item at the position found is replaced
  by \<open>tabItem\<close> with \<open>saved = true\<close> and the state that \<open>new SavedTabState(tabNode)\<close>
  builds. That state takes \<open>title\<close> and \<open>url\<close> from the node; its \<open>bookmarkId\<close> and
  \<open>bookmarkIndex\<close> are the defaults, not the node's \<open>id\<close> and \<open>index\<close>.
\<close>

lemma saveTab_found:
  assumes wf: "wf_TabWindow tw"
    and os: "openState tabItem = Some os'"
    and i: "i < length (tabItems tw)"
    and hit: "hasOpenTabId (openTabId os') (tabItems tw ! i)"
    and first: "\<forall>j<i. \<not> hasOpenTabId (openTabId os') (tabItems tw ! j)"
  shows "saveTab tw tabItem tabNode =
           Inr (tw\<lparr>tabItems :=
                  (tabItems tw)[i := tabItem\<lparr>saved := True,
                                   savedState := Some (newSavedTabState tabNode)\<rparr>]\<rparr>)"
proof -
  let ?xs = "tabItems tw"
  let ?p = "\<lambda>ti. if open ti then
                      (case openState ti of
                         None \<Rightarrow> Inl TypeError
                       | Some os \<Rightarrow>
                           (case openState tabItem of
                              None \<Rightarrow> Inl TypeError
                            | Some os' \<Rightarrow> Inr (openTabId os = openTabId os')))
                    else Inr False"
  from os have pe: "?p = isOpenTab (openTabId os')"
    by (auto simp: fun_eq_iff isOpenTab_def split: option.splits)
  from wf have p: "\<And>k. k < length ?xs \<Longrightarrow>
      isOpenTab (openTabId os') (?xs ! k) = Inr (hasOpenTabId (openTabId os') (?xs ! k))"
    by (simp add: wf_TabWindow_def list_all_length isOpenTab_wf)
  have "findEntryFrom 0 (isOpenTab (openTabId os')) ?xs = Inr (Some (0 + i, ?xs ! i))"
  proof (rule findEntryFrom_first [OF i])
    show "isOpenTab (openTabId os') (?xs ! i) = Inr True" using p [OF i] hit by simp
    show "\<forall>k<i. isOpenTab (openTabId os') (?xs ! k) = Inr False" using p first i by auto
  qed
  then have "findEntry ?p ?xs = Inr (Some (i, ?xs ! i))"
    by (simp only: pe findEntry_def add_0)
  then show ?thesis
    using i unfolding saveTab_def by (simp add: spliceSeq_replace)
qed

lemma newSavedTabState_defaults:
  "bookmarkId (newSavedTabState tabNode) = '''' \<and> bookmarkIndex (newSavedTabState tabNode) = 0"
  by (simp add: newSavedTabState_def)

text \<open>
  C5, at a concrete input: the window holds the open tabs 7 and 8, the item of tab 8 is
  saved with the bookmark node of id \<open>''44''\<close> and index \<open>5\<close>. The item that \<open>saveTab\<close>
  puts in place has \<open>bookmarkId = ''''\<close> and \<open>bookmarkIndex = 0\<close>, where the claim (and
  \<open>makeSavedTabState\<close> for the same node) has \<open>''44''\<close> and \<open>5\<close>.
\<close>

theorem saveTab_bookmark_fields:
  "saveTab exWindow (makeOpenTabItem exTabB) exNodeB =
     Inr (exWindow\<lparr>tabItems :=
            [makeOpenTabItem exTabA,
             (makeOpenTabItem exTabB)\<lparr>saved := True,
                savedState := Some \<lparr>bookmarkId = '''', bookmarkIndex = 0,
                                     savedTabTitle = ''B'', savedUrl = ''https://b.com''\<rparr>\<rparr>]\<rparr>) \<and>
   nodeId exNodeB = ''44'' \<and> nodeIndex exNodeB = 5 \<and>
   makeSavedTabState exNodeB =
     \<lparr>bookmarkId = ''44'', bookmarkIndex = 5, savedTabTitle = ''B'', savedUrl = ''https://b.com''\<rparr>"
  by code_simp

subsection \<open>C6: updating a window from a snapshot\<close>

text \<open>
  What \<open>updateWindow\<close> does for a snapshot that carries its tabs and a window whose items
  satisfy the invariant of TabItem: it returns the window with \<open>tabItems\<close> set to the
  sequence that \<open>mergeOpenTabs\<close> returns, \<open>windowType\<close> and \<open>openWindowId\<close> set from the
  snapshot and \<open>open\<close> set; \<open>saved\<close>, \<open>savedTitle\<close> and \<open>savedFolderId\<close> are those of the
  input.
\<close>

lemma updateWindow_present:
  assumes "wf_TabWindow tw" and "chromeTabs cw = Some tabs"
  shows "\<exists>merged. mergeOpenTabs h (tabItems tw) (Some tabs) = Inr merged \<and>
           updateWindow h tw cw =
             Inr \<lparr>windowSaved = windowSaved tw, savedTitle = savedTitle tw,
                  savedFolderId = savedFolderId tw, windowOpen = True,
                  openWindowId = chromeWindowId cw, windowType = chromeWindowType cw,
                  tabItems = merged\<rparr>"
proof -
  from assms(1) have "list_all wf_TabItem (tabItems tw)" by (simp add: wf_TabWindow_def)
  from mergeOpenTabs_total [OF this, of h tabs] obtain merged
    where "mergeOpenTabs h (tabItems tw) (Some tabs) = Inr merged" ..
  with assms(2) show ?thesis by (cases tw) (simp add: updateWindow_def)
qed

text \<open>
  C6, at a concrete input: a snapshot of a window without \<open>tabs\<close>. \<open>makeChromeTabWindow\<close>
  takes the absent list as empty and returns a window; \<open>updateWindow\<close> returns none, it
  throws.
\<close>

theorem updateWindow_absent_tabs:
  "makeChromeTabWindow exBareWindow =
     \<lparr>windowSaved = False, savedTitle = '''', savedFolderId = NumId (- 1), windowOpen = True,
      openWindowId = 1, windowType = ''normal'', tabItems = []\<rparr> \<and>
   updateWindow h exWindow exBareWindow = Inl TypeError"
  by (simp add: makeChromeTabWindow_def updateWindow_def mergeOpenTabs_def getOpenTabInfo_def
      exBareWindow_def)

subsection \<open>C7: a tab id that no open item has\<close>

text \<open>
  C7. When no item of a window is open with the given tab id, \<open>closeTab\<close> returns the
  window as it is and so does \<open>setActiveTab\<close>; neither throws. The items of the window
  satisfy the invariant of TabItem.
\<close>

theorem closeTab_setActiveTab_miss:
  assumes "wf_TabWindow tw" and "\<forall>ti\<in>set (tabItems tw). \<not> hasOpenTabId t ti"
  shows "closeTab tw t = Inr tw \<and> setActiveTab tw t = Inr tw"
proof -
  from assms have "\<forall>ti\<in>set (tabItems tw). isOpenTab t ti = Inr False"
    by (auto simp: wf_TabWindow_def list_all_iff isOpenTab_wf)
  then have "findEntry (isOpenTab t) (tabItems tw) = Inr None"
    by (simp add: findEntry_def findEntryFrom_None_iff)
  then show ?thesis by (simp add: closeTab_def setActiveTab_def)
qed

theorem closeTab_setActiveTab_miss_witness:
  "wf_TabWindow exMergedWindow \<and>
   list_all (\<lambda>ti. \<not> hasOpenTabId 9 ti) (tabItems exMergedWindow) \<and>
   closeTab exMergedWindow 9 = Inr exMergedWindow \<and>
   setActiveTab exMergedWindow 9 = Inr exMergedWindow"
proof -
  have wf: "wf_TabWindow exMergedWindow" by code_simp
  have miss: "list_all (\<lambda>ti. \<not> hasOpenTabId 9 ti) (tabItems exMergedWindow)" by code_simp
  then have "\<forall>ti\<in>set (tabItems exMergedWindow). \<not> hasOpenTabId 9 ti"
    by (simp add: list_all_iff)
  from closeTab_setActiveTab_miss [OF wf this] wf miss show ?thesis by blast
qed

subsection \<open>C8: reconciling a fresh window with its own snapshot\<close>

text \<open>
  What holds for a snapshot that carries its tabs: reconciling the items of
  \<open>makeChromeTabWindow w\<close> with the tabs of \<open>w\<close> returns a sequence with the same
  multiset of items (hence of URLs and of \<open>openTabIndex\<close> values).
\<close>

lemma mergeOpenTabs_roundtrip:
  assumes "chromeTabs w = Some tabs"
  shows "\<exists>out. mergeOpenTabs h (tabItems (makeChromeTabWindow w)) (chromeTabs w) = Inr out \<and>
           mset out = mset (tabItems (makeChromeTabWindow w))"
proof -
  have items: "tabItems (makeChromeTabWindow w) = map makeOpenTabItem tabs"
    using assms by (simp add: makeChromeTabWindow_def)
  have "list_all wf_TabItem (map makeOpenTabItem tabs)"
    by (simp add: list_all_iff wf_TabItem_def makeOpenTabItem_fields)
  from mergeOpenTabs_total [OF this, of h tabs] obtain out
    where out: "mergeOpenTabs h (map makeOpenTabItem tabs) (Some tabs) = Inr out" ..
  from mergeOpenTabs_fresh [OF out] out items assms show ?thesis by simp
qed

text \<open>
  C8, at a concrete input: a snapshot of a window without \<open>tabs\<close>. The window made from
  it has no items; reconciling them with the \<open>tabs\<close> of the snapshot returns no sequence,
  it throws.
\<close>

theorem roundtrip_absent_tabs:
  "tabItems (makeChromeTabWindow exBareWindow) = [] \<and>
   mergeOpenTabs h (tabItems (makeChromeTabWindow exBareWindow)) (chromeTabs exBareWindow) =
     Inl TypeError"
  by (simp add: makeChromeTabWindow_def mergeOpenTabs_def getOpenTabInfo_def exBareWindow_def)

subsection \<open>C9: removing the open state of a window\<close>

text \<open>
  C9. \<open>removeOpenWindowState\<close> returns the window whose items are the saved items of the
  input, in their order, each with \<open>open = false\<close> and \<open>openState = null\<close> and its
  \<open>url\<close> and \<open>savedState\<close> unchanged; the items that are not saved are dropped. \<open>open\<close>,
  \<open>openWindowId\<close> and \<open>windowType\<close> of the window are the defaults \<open>false\<close>, \<open>-1\<close> and
  the empty string; \<open>saved\<close>, \<open>savedTitle\<close> and \<open>savedFolderId\<close> are those of the input.
\<close>

theorem removeOpenWindowState_saved_only:
  "removeOpenWindowState tw =
     \<lparr>windowSaved = windowSaved tw, savedTitle = savedTitle tw, savedFolderId = savedFolderId tw,
      windowOpen = False, openWindowId = - 1, windowType = '''',
      tabItems =
        map (\<lambda>ti. \<lparr>url = url ti, saved = True, savedState = savedState ti,
                    open = False, openState = None\<rparr>)
          (filter saved (tabItems tw))\<rparr>"
proof -
  have "map resetSavedItem (filter saved (tabItems tw)) =
        map (\<lambda>ti. \<lparr>url = url ti, saved = True, savedState = savedState ti,
                    open = False, openState = None\<rparr>)
          (filter saved (tabItems tw))"
    by (rule map_cong) (auto simp: resetSavedItem_def)
  then show ?thesis by (cases tw) (simp add: removeOpenWindowState_def)
qed

subsection \<open>C10: removing the saved state of a window\<close>

text \<open>
  C10. \<open>removeSavedWindowState\<close> returns the window with \<open>saved\<close>, \<open>savedFolderId\<close> and
  \<open>savedTitle\<close> at their defaults \<open>false\<close>, \<open>-1\<close> and the empty string, and every other
  field as in the input: \<open>tabItems\<close> is the same sequence, so a saved item keeps
  \<open>saved = true\<close> and its \<open>savedState\<close>.
\<close>

theorem removeSavedWindowState_frame:
  "removeSavedWindowState tw =
     \<lparr>windowSaved = False, savedTitle = '''', savedFolderId = NumId (- 1),
      windowOpen = windowOpen tw, openWindowId = openWindowId tw, windowType = windowType tw,
      tabItems = tabItems tw\<rparr>"
  by (cases tw) (simp add: removeSavedWindowState_def)

end
